theory Spec2Isabelle
  imports Main "HOL-Library.Word"
begin

section \<open>JavaScript values read by the program\<close>

text \<open>
  The program reads JSON of type \<^verbatim>\<open>any\<close>. A property the code converts to
  text or tests for truthiness is a \<open>jsval\<close>: absent (\<^verbatim>\<open>undefined\<close>),
  \<^verbatim>\<open>null\<close>, or a string. An object or array that the code dereferences is an
  \<open>option\<close>: on \<open>None\<close> the dereference raises a \<^verbatim>\<open>TypeError\<close>.
\<close>

datatype jsval = Undefined | Null | Str string

datatype error = Error string | TypeError string

fun message :: "error \<Rightarrow> string" where
  "message (Error m) = m"
| "message (TypeError m) = m"

text \<open>Truthiness, as tested by \<^verbatim>\<open>if (x)\<close>, \<^verbatim>\<open>while (x)\<close>, \<^verbatim>\<open>x ? a : b\<close>.\<close>

fun truthy :: "jsval \<Rightarrow> bool" where
  "truthy (Str s) = (s \<noteq> [])"
| "truthy Undefined = False"
| "truthy Null = False"

text \<open>Conversion inside a template literal \<^verbatim>\<open>`${x}`\<close>.\<close>

fun to_string :: "jsval \<Rightarrow> string" where
  "to_string (Str s) = s"
| "to_string Undefined = ''undefined''"
| "to_string Null = ''null''"

text \<open>Decimal text of a number, as a template literal prints it.\<close>

fun string_of_nat :: "nat \<Rightarrow> string" where
  "string_of_nat n =
     (if n < 10 then [char_of (48 + n)]
      else string_of_nat (n div 10) @ [char_of (48 + n mod 10)])"

declare string_of_nat.simps [simp del]

section \<open>Tracks\<close>

text \<open>
  \<^verbatim>\<open>type SpotifyTrack = { id: string; name: string; artist: string }\<close>.
  The declared field types are not enforced at run time: \<open>id\<close> and \<open>name\<close> are
  copied from the response unchanged, so they are \<open>jsval\<close>; \<open>artist\<close> is always
  the result of \<^verbatim>\<open>join\<close>, a string.
\<close>

record SpotifyTrack =
  track_id :: jsval
  track_name :: jsval
  track_artist :: string

text \<open>An element of an \<^verbatim>\<open>artists\<close> array: the code reads its \<^verbatim>\<open>name\<close>.\<close>

record raw_artist =
  artist_name :: jsval

text \<open>The object under the \<^verbatim>\<open>track\<close> key of a playlist entry.\<close>

record raw_track =
  rt_id :: jsval
  rt_name :: jsval
  rt_artists :: "raw_artist list option"

text \<open>
  A raw item, as \<^verbatim>\<open>getTracks\<close> destructures it:
  \<^verbatim>\<open>({ id, name, artists, track })\<close>.
\<close>

record raw_item =
  it_id :: jsval
  it_name :: jsval
  it_artists :: "raw_artist list option"
  it_track :: "raw_track option"

text \<open>
  \<^verbatim>\<open>Array.prototype.join\<close>: the separator goes before every element but the
  first; \<^verbatim>\<open>undefined\<close> and \<^verbatim>\<open>null\<close> elements print as the empty string.
\<close>

fun join_elem :: "jsval \<Rightarrow> string" where
  "join_elem (Str s) = s"
| "join_elem Undefined = []"
| "join_elem Null = []"

fun join_loop :: "string \<Rightarrow> jsval list \<Rightarrow> nat \<Rightarrow> string \<Rightarrow> string" where
  "join_loop sep [] k R = R"
| "join_loop sep (x # xs) k R =
     join_loop sep xs (Suc k) ((if 0 < k then R @ sep else R) @ join_elem x)"

definition join :: "string \<Rightarrow> jsval list \<Rightarrow> string" where
  "join sep xs = join_loop sep xs 0 []"

text \<open>
  \<^verbatim>\<open>const getArtistFromArtists = (artists) =>
    artists.map((artist) => artist.name).join(", ")\<close>;
  \<^verbatim>\<open>artists.map\<close> on \<^verbatim>\<open>undefined\<close> raises.
\<close>

definition getArtistFromArtists :: "raw_artist list option \<Rightarrow> error + string" where
  "getArtistFromArtists artists =
     (case artists of
        None \<Rightarrow> Inl (TypeError ''Cannot read properties of undefined (reading 'map')'')
      | Some as \<Rightarrow> Inr (join '', '' (map artist_name as)))"

text \<open>
  The callback of \<^verbatim>\<open>items.map\<close> in \<^verbatim>\<open>getTracks\<close>:
  \<^verbatim>\<open>id ? { id, name, artist: getArtistFromArtists(artists) }
     : { id: track.id, name: track.name, artist: getArtistFromArtists(track.artists) }\<close>.
\<close>

definition getTrack :: "raw_item \<Rightarrow> error + SpotifyTrack" where
  "getTrack it =
     (if truthy (it_id it) then
        (case getArtistFromArtists (it_artists it) of
           Inl e \<Rightarrow> Inl e
         | Inr a \<Rightarrow> Inr \<lparr>track_id = it_id it, track_name = it_name it, track_artist = a\<rparr>)
      else
        (case it_track it of
           None \<Rightarrow> Inl (TypeError ''Cannot read properties of undefined (reading 'id')'')
         | Some t \<Rightarrow>
             (case getArtistFromArtists (rt_artists t) of
                Inl e \<Rightarrow> Inl e
              | Inr a \<Rightarrow> Inr \<lparr>track_id = rt_id t, track_name = rt_name t, track_artist = a\<rparr>)))"

text \<open>\<^verbatim>\<open>items.map(...)\<close>: the first item that raises aborts the whole map.\<close>

fun map_items :: "raw_item list \<Rightarrow> error + SpotifyTrack list" where
  "map_items [] = Inr []"
| "map_items (it # its) =
     (case getTrack it of
        Inl e \<Rightarrow> Inl e
      | Inr t \<Rightarrow> (case map_items its of Inl e \<Rightarrow> Inl e | Inr ts \<Rightarrow> Inr (t # ts)))"

definition getTracks :: "raw_item list option \<Rightarrow> error + SpotifyTrack list" where
  "getTracks items =
     (case items of
        None \<Rightarrow> Inl (TypeError ''Cannot read properties of undefined (reading 'map')'')
      | Some its \<Rightarrow> map_items its)"

text \<open>\<^verbatim>\<open>const getTrackName = (track) => `${track.name} - ${track.artist}`\<close>\<close>

definition getTrackName :: "SpotifyTrack \<Rightarrow> string" where
  "getTrackName track = to_string (track_name track) @ '' - '' @ track_artist track"

text \<open>
  The two shapes of a raw item: flat (an album entry, a track itself) and wrapped
  (a playlist entry, with the track under \<^verbatim>\<open>track\<close>).
\<close>

definition flat_item :: "raw_item \<Rightarrow> bool" where
  "flat_item it = (truthy (it_id it) \<and> it_artists it \<noteq> None)"

definition wrapped_item :: "raw_item \<Rightarrow> bool" where
  "wrapped_item it =
     (\<not> truthy (it_id it) \<and>
      (case it_track it of None \<Rightarrow> False | Some t \<Rightarrow> rt_artists t \<noteq> None))"

text \<open>
  The names of a list of artists, in order, with \<open>'', ''\<close> between neighbours and nothing
  before the first or after the last.
\<close>

fun names_joined :: "raw_artist list \<Rightarrow> string" where
  "names_joined [] = []"
| "names_joined [a] = join_elem (artist_name a)"
| "names_joined (a # b # bs) = join_elem (artist_name a) @ '', '' @ names_joined (b # bs)"


section \<open>The outside world\<close>

text \<open>
  What the program prints: \<^verbatim>\<open>console.log\<close>, \<^verbatim>\<open>console.error\<close> and
  \<^verbatim>\<open>mulbar.log\<close> lines (colours dropped: \<^verbatim>\<open>chalk\<close> only wraps the text).
\<close>

datatype printed = ConsoleLog string | ConsoleError string | BarLog string

text \<open>
  The module-level variable \<^verbatim>\<open>accessToken\<close> and the effects on the outside:
  the URLs contacted, the lines printed, the directories ensured, in order.
\<close>

record world =
  accessToken :: jsval
  requests :: "string list"
  console :: "printed list"
  dirs :: "string list"

text \<open>The fields of a \<^verbatim>\<open>URL\<close> object the program reads.\<close>

record url =
  url_hostname :: string
  url_pathname :: string

text \<open>A paging object: \<^verbatim>\<open>data.tracks\<close> of the first response.\<close>

record paging =
  pg_items :: "raw_item list option"
  pg_next :: jsval

text \<open>
  The body of a metadata response, with the properties the program reads:
  \<^verbatim>\<open>id\<close>, \<^verbatim>\<open>name\<close>, \<^verbatim>\<open>artists\<close>, \<^verbatim>\<open>owner.display_name\<close>
  (\<open>None\<close>: no \<^verbatim>\<open>owner\<close>), \<^verbatim>\<open>tracks\<close> on the first response,
  \<^verbatim>\<open>items\<close> and \<^verbatim>\<open>next\<close> on a following page.
\<close>

record api_data =
  d_id :: jsval
  d_name :: jsval
  d_artists :: "raw_artist list option"
  d_owner :: "jsval option"
  d_tracks :: "paging option"
  d_items :: "raw_item list option"
  d_next :: jsval

text \<open>
  The collaborators outside the repository, as parameters:
  \<^item> \<open>URL_new\<close>: \<^verbatim>\<open>new URL(s)\<close>, which raises on a string that is no URL;
  \<^item> \<open>token_endpoint\<close>: the answer of the token endpoint, \<open>Inl\<close> when the request
    fails, \<open>Inr None\<close> when the response has no body, \<open>Inr (Some v)\<close> when
    \<^verbatim>\<open>response.data.accessToken\<close> is \<open>v\<close>;
  \<^item> \<open>api_get\<close>: \<^verbatim>\<open>axios.get(url, { headers: { Authorization } })\<close>;
  \<^item> \<open>sanitizeFilename\<close>, \<open>path_resolve\<close>: the library functions;
  \<^item> \<open>ensureDir_fails\<close>: the error \<^verbatim>\<open>fs.ensureDir\<close> raises on a path, if any.
\<close>

record env =
  URL_new :: "string \<Rightarrow> error + url"
  token_endpoint :: "error + jsval option"
  api_get :: "string \<Rightarrow> string \<Rightarrow> error + api_data"
  sanitizeFilename :: "string \<Rightarrow> string"
  path_resolve :: "string \<Rightarrow> string"
  ensureDir_fails :: "string \<Rightarrow> error option"

section \<open>Access token\<close>

definition token_url :: string where
  "token_url = ''https://open.spotify.com/get_access_token''"

text \<open>
  \<^verbatim>\<open>async function getSpotifyAccessToken() {
    if (accessToken) { return accessToken; }
    try {
      const response = await axios.get("https://open.spotify.com/get_access_token");
      accessToken = response.data.accessToken;
      return accessToken;
    } catch (error) {
      console.error("Error fetching Spotify access token:", error);
      throw new Error("Failed to get access token");
    }
  }\<close>
\<close>

definition getSpotifyAccessToken :: "env \<Rightarrow> world \<Rightarrow> (error + jsval) \<times> world" where
  "getSpotifyAccessToken E w =
     (if truthy (accessToken w) then (Inr (accessToken w), w)
      else
        (let w1 = w\<lparr>requests := requests w @ [token_url]\<rparr>;
             caught = (\<lambda>e. (Inl (Error ''Failed to get access token''),
                  w1\<lparr>console := console w1 @
                    [ConsoleError (''Error fetching Spotify access token: '' @ message e)]\<rparr>))
         in case token_endpoint E of
              Inl e \<Rightarrow> caught e
            | Inr None \<Rightarrow>
                caught (TypeError ''Cannot read properties of undefined (reading 'accessToken')'')
            | Inr (Some v) \<Rightarrow> (Inr v, w1\<lparr>accessToken := v\<rparr>)))"

section \<open>URL parsing\<close>

text \<open>\<^verbatim>\<open>String.prototype.includes\<close>: the argument occurs at some position.\<close>

fun starts_with :: "string \<Rightarrow> string \<Rightarrow> bool" where
  "starts_with s [] = True"
| "starts_with [] (c # cs) = False"
| "starts_with (x # xs) (c # cs) = (x = c \<and> starts_with xs cs)"

fun js_includes :: "string \<Rightarrow> string \<Rightarrow> bool" where
  "js_includes [] sub = (sub = [])"
| "js_includes (x # xs) sub = (starts_with (x # xs) sub \<or> js_includes xs sub)"

text \<open>
  \<^verbatim>\<open>String.prototype.split\<close> with a one-character separator: the pieces between
  the separators, the empty ones included; the empty string gives one empty piece.
\<close>

fun split :: "char \<Rightarrow> string \<Rightarrow> string list" where
  "split c [] = [[]]"
| "split c (x # xs) =
     (if x = c then [] # split c xs
      else (case split c xs of [] \<Rightarrow> [[x]] | p # ps \<Rightarrow> (x # p) # ps))"

text \<open>\<^verbatim>\<open>xs[i]\<close>: \<^verbatim>\<open>undefined\<close> out of range.\<close>

definition at_index :: "'a list \<Rightarrow> nat \<Rightarrow> 'a option" where
  "at_index xs i = (if i < length xs then Some (xs ! i) else None)"

datatype rtype = Album | Playlist

fun type_name :: "rtype \<Rightarrow> string" where
  "type_name Album = ''album''"
| "type_name Playlist = ''playlist''"

text \<open>
  \<^verbatim>\<open>function parseSpotifyUrl(urlString) {
    const url = new URL(urlString);
    if (!url.hostname.includes("spotify.com")) {
      throw new Error("Invalid domain. Only Spotify URLs are supported.");
    }
    const pathParts = url.pathname.split("/");
    const type = pathParts[1];
    const id = pathParts[2];
    if ((type === "album" || type === "playlist") && id) {
      return { type, id };
    } else {
      throw new Error("Invalid Spotify URL. Must be a valid album or playlist URL.");
    }
  }\<close>
\<close>

definition parseSpotifyUrl :: "(string \<Rightarrow> error + url) \<Rightarrow> string \<Rightarrow> error + rtype \<times> string" where
  "parseSpotifyUrl URL urlString =
     (case URL urlString of
        Inl e \<Rightarrow> Inl e
      | Inr u \<Rightarrow>
          if \<not> js_includes (url_hostname u) ''spotify.com'' then
            Inl (Error ''Invalid domain. Only Spotify URLs are supported.'')
          else
            (let pathParts = split (CHR ''/'') (url_pathname u);
                 type = at_index pathParts 1;
                 rid = at_index pathParts 2
             in if (type = Some ''album'' \<or> type = Some ''playlist'') \<and>
                   (case rid of None \<Rightarrow> False | Some i \<Rightarrow> i \<noteq> [])
                then Inr (if type = Some ''album'' then Album else Playlist, the rid)
                else Inl (Error ''Invalid Spotify URL. Must be a valid album or playlist URL.'')))"

text \<open>
  The hosts the program recognizes: the host name contains \<^verbatim>\<open>spotify.com\<close>.
\<close>

definition recognized_host :: "string \<Rightarrow> bool" where
  "recognized_host h = (\<exists>a b. h = a @ ''spotify.com'' @ b)"

text \<open>
  The path is \<^verbatim>\<open>/{album|playlist}/{id}\<close>, with \<open>id\<close> a non-empty segment, and
  is either over there or goes on with a further \<^verbatim>\<open>/\<close>.
\<close>

definition path_matches :: "string \<Rightarrow> rtype \<Rightarrow> string \<Rightarrow> bool" where
  "path_matches p t i =
     (let pre = ''/'' @ type_name t @ ''/'' @ i
      in i \<noteq> [] \<and> CHR ''/'' \<notin> set i \<and> take (length pre) p = pre \<and>
         (drop (length pre) p = [] \<or> hd (drop (length pre) p) = CHR ''/''))"

section \<open>Resource resolver\<close>

datatype resource_info = AlbumInfo jsval string | PlaylistInfo jsval jsval

text \<open>
  \<^verbatim>\<open>type SpotifyResource = { id; tracks } &
     ({ type: "album"; title; artist } | { type: "playlist"; name; owner })\<close>
\<close>

record SpotifyResource =
  res_id :: jsval
  res_tracks :: "SpotifyTrack list"
  res_info :: resource_info

text \<open>
  The pagination loop of \<^verbatim>\<open>getSpotifyResource\<close>:
  \<^verbatim>\<open>while (next) {
    const { data } = await axios.get(next, { headers: { Authorization } });
    tracks.push(...getTracks(data.items));
    next = data.next;
  }\<close>
  It runs for as long as the server names a next page, so it need not return.
\<close>

partial_function (option) follow_next ::
  "env \<Rightarrow> string \<Rightarrow> jsval \<Rightarrow> SpotifyTrack list \<Rightarrow> world \<Rightarrow>
     ((error + SpotifyTrack list) \<times> world) option" where
  "follow_next E auth nxt tracks w =
     (if truthy nxt then
        (case api_get E (to_string nxt) auth of
           Inl e \<Rightarrow> Some (Inl e, w\<lparr>requests := requests w @ [to_string nxt]\<rparr>)
         | Inr d \<Rightarrow>
             (case getTracks (d_items d) of
                Inl e \<Rightarrow> Some (Inl e, w\<lparr>requests := requests w @ [to_string nxt]\<rparr>)
              | Inr ts \<Rightarrow>
                  follow_next E auth (d_next d) (tracks @ ts)
                    (w\<lparr>requests := requests w @ [to_string nxt]\<rparr>)))
      else Some (Inr tracks, w))"

definition resource_url :: "rtype \<Rightarrow> string \<Rightarrow> string" where
  "resource_url type rid = ''https://api.spotify.com/v1/'' @ type_name type @ ''s/'' @ rid"

definition bearer :: "jsval \<Rightarrow> string" where
  "bearer token = ''Bearer '' @ to_string token"

text \<open>
  The \<^verbatim>\<open>try\<close> block of \<^verbatim>\<open>getSpotifyResource\<close>. The \<^verbatim>\<open>invariant\<close> call
  at its head checks that \<open>type\<close> is one of the two values of \<open>rtype\<close>.
\<close>

definition getSpotifyResource_try ::
  "env \<Rightarrow> rtype \<Rightarrow> string \<Rightarrow> world \<Rightarrow> ((error + SpotifyResource) \<times> world) option" where
  "getSpotifyResource_try E type rid w =
     (case getSpotifyAccessToken E w of
        (Inl e, w1) \<Rightarrow> Some (Inl e, w1)
      | (Inr token, w1) \<Rightarrow>
          (let w2 = w1\<lparr>requests := requests w1 @ [resource_url type rid]\<rparr> in
           case api_get E (resource_url type rid) (bearer token) of
             Inl e \<Rightarrow> Some (Inl e, w2)
           | Inr data \<Rightarrow>
               (case d_tracks data of
                  None \<Rightarrow>
                    Some (Inl (TypeError ''Cannot read properties of undefined (reading 'items')''), w2)
                | Some pg \<Rightarrow>
                    (case getTracks (pg_items pg) of
                       Inl e \<Rightarrow> Some (Inl e, w2)
                     | Inr tracks0 \<Rightarrow>
                         (case follow_next E (bearer token) (pg_next pg) tracks0 w2 of
                            None \<Rightarrow> None
                          | Some (Inl e, w3) \<Rightarrow> Some (Inl e, w3)
                          | Some (Inr tracks, w3) \<Rightarrow>
                              (case type of
                                 Album \<Rightarrow>
                                   (case getArtistFromArtists (d_artists data) of
                                      Inl e \<Rightarrow> Some (Inl e, w3)
                                    | Inr a \<Rightarrow>
                                        Some (Inr \<lparr>res_id = d_id data, res_tracks = tracks,
                                                    res_info = AlbumInfo (d_name data) a\<rparr>, w3))
                               | Playlist \<Rightarrow>
                                   (case d_owner data of
                                      None \<Rightarrow>
                                        Some (Inl (TypeError
                                          ''Cannot read properties of undefined (reading 'display_name')''), w3)
                                    | Some owner \<Rightarrow>
                                        Some (Inr \<lparr>res_id = d_id data, res_tracks = tracks,
                                                    res_info = PlaylistInfo (d_name data) owner\<rparr>,
                                              w3))))))))"

text \<open>
  \<^verbatim>\<open>getSpotifyResource\<close>: the \<^verbatim>\<open>catch\<close> clause prints the error and raises
  \<^verbatim>\<open>new Error(`Failed to fetch ${type} info`)\<close> in its place.
\<close>

definition getSpotifyResource ::
  "env \<Rightarrow> rtype \<Rightarrow> string \<Rightarrow> world \<Rightarrow> ((error + SpotifyResource) \<times> world) option" where
  "getSpotifyResource E type rid w =
     (case getSpotifyResource_try E type rid w of
        None \<Rightarrow> None
      | Some (Inl e, w') \<Rightarrow>
          Some (Inl (Error (''Failed to fetch '' @ type_name type @ '' info'')),
                w'\<lparr>console := console w' @
                  [ConsoleError (''Error fetching Spotify '' @ type_name type @ '' info: '' @
                     message e)]\<rparr>)
      | Some (Inr r, w') \<Rightarrow> Some (Inr r, w'))"

text \<open>
  A listing that goes on over the pages \<open>pages\<close> (the item lists of the pages after
  the first, in the order the server links them) and then ends.
\<close>

fun page_chain :: "env \<Rightarrow> string \<Rightarrow> jsval \<Rightarrow> raw_item list list \<Rightarrow> bool" where
  "page_chain E auth nxt [] = (\<not> truthy nxt)"
| "page_chain E auth nxt (its # rest) =
     (truthy nxt \<and>
      (case api_get E (to_string nxt) auth of
         Inl e \<Rightarrow> False
       | Inr d \<Rightarrow> d_items d = Some its \<and> page_chain E auth (d_next d) rest))"

text \<open>The tracks of a list of well-shaped raw items, one per item, in order.\<close>

definition tracks_of :: "raw_item list \<Rightarrow> SpotifyTrack list" where
  "tracks_of its = map (\<lambda>it. projr (getTrack it)) its"

section \<open>Track fetcher\<close>












section \<open>The download run\<close>

text \<open>
  \<^verbatim>\<open>const queue = new PQueue({ concurrency: 25 })\<close> and
  \<^verbatim>\<open>const maxRetries = 5\<close>.
\<close>

definition concurrency :: nat where
  "concurrency = 25"

definition maxRetries :: nat where
  "maxRetries = 5"

text \<open>
  Where a job stands between two of its suspension points: not yet started by the queue;
  suspended in \<^verbatim>\<open>await downloadTrack(...)\<close> with the local \<^verbatim>\<open>attempt\<close> at
  the given value; suspended in the one-second \<^verbatim>\<open>await new Promise(...)\<close> of the
  \<^verbatim>\<open>catch\<close> clause; returned.
\<close>

datatype job_status = Queued | AwaitDownload nat | AwaitDelay nat | Done

text \<open>
  The progress bar of \<^verbatim>\<open>cli-progress\<close>: its total, its value and the payload.
  \<^verbatim>\<open>mulbar.create(data.tracks.length, 0, { success: 0, failure: 0 })\<close> starts
  it, on a terminal, with the number of tracks as its total.
\<close>

record bar_state =
  bar_total :: nat
  bar_value :: nat
  bar_success :: nat
  bar_failure :: nat

text \<open>
  The state of a run: the tracks of the resource (\<^verbatim>\<open>data.tracks\<close>), the object
  \<^verbatim>\<open>downloadStatus\<close> (\<open>expectedCount\<close>, \<open>success\<close>, \<open>failures\<close>), the bar,
  the jobs and the lines printed. The two arrays hold references to the track objects of
  \<^verbatim>\<open>data.tracks\<close>; the object at position \<open>i\<close> is written \<open>i\<close>, so that two
  entries of a playlist with the same content stay two objects.
\<close>

record run_state =
  rs_tracks :: "SpotifyTrack list"
  expectedCount :: nat
  success :: "nat list"
  failures :: "nat list"
  bar :: bar_state
  jobs :: "job_status list"
  out :: "printed list"

text \<open>The content of the two arrays: the tracks the references stand for.\<close>

definition deref :: "run_state \<Rightarrow> nat list \<Rightarrow> SpotifyTrack list" where
  "deref s refs = map (\<lambda>i. rs_tracks s ! i) refs"

text \<open>
  \<^verbatim>\<open>bar.update(value, payload)\<close> stores the value and the payload.
  \<^verbatim>\<open>bar.getProgress()\<close> is \<^verbatim>\<open>value / total\<close> cut to the range from 0 to 1,
  and 1 when the total is 0; it is 1 exactly when the value has reached the total.
\<close>

definition bar_set :: "nat \<Rightarrow> nat \<Rightarrow> nat \<Rightarrow> bar_state \<Rightarrow> bar_state" where
  "bar_set v s f b = b\<lparr>bar_value := v, bar_success := s, bar_failure := f\<rparr>"

definition getProgress_is_1 :: "bar_state \<Rightarrow> bool" where
  "getProgress_is_1 b = (bar_total b = 0 \<or> bar_total b \<le> bar_value b)"

definition mulbar_log :: "string \<Rightarrow> run_state \<Rightarrow> run_state" where
  "mulbar_log line s = s\<lparr>out := out s @ [BarLog line]\<rparr>"

definition newline :: string where
  "newline = [CHR 0x0A]"

text \<open>The check mark of a success line, as the bytes of the source file.\<close>

definition check_mark :: string where
  "check_mark = [CHR 0xC3, CHR 0xA2, CHR 0xC5, CHR 0x93, CHR 0xE2, CHR 0x80, CHR 0x9C]"

text \<open>\<^verbatim>\<open>const logStr = `(#${track.id}) ${trackName}`\<close>\<close>

definition logStr :: "SpotifyTrack \<Rightarrow> string" where
  "logStr track = ''(#'' @ to_string (track_id track) @ '') '' @ getTrackName track"

definition summary_header :: string where
  "summary_header = newline @ ''(Download Summary)'' @ newline"

text \<open>
  The \<^verbatim>\<open>finally\<close> clause of an attempt:
  \<^verbatim>\<open>bar.update(success.length + failures.length, { success: success.length, failure: failures.length });
  if (bar.getProgress() === 1) {
    mulbar.log("\n(Download Summary)\n");
    mulbar.log(`  Total Count: ${expectedCount}\n`);
    mulbar.log(`  Successful : ${success.length}\n`);
    mulbar.log(`  Failures   : ${failures.length}\n`);
  }\<close>
\<close>

definition finally_clause :: "run_state \<Rightarrow> run_state" where
  "finally_clause s =
     (let s1 = s\<lparr>bar := bar_set (length (success s) + length (failures s))
                      (length (success s)) (length (failures s)) (bar s)\<rparr>
      in if getProgress_is_1 (bar s1) then
           mulbar_log (''  Failures   : '' @ string_of_nat (length (failures s1)) @ newline)
             (mulbar_log (''  Successful : '' @ string_of_nat (length (success s1)) @ newline)
               (mulbar_log (''  Total Count: '' @ string_of_nat (expectedCount s1) @ newline)
                 (mulbar_log summary_header s1)))
         else s1)"

text \<open>
  The head of the loop, \<^verbatim>\<open>while (attempt < maxRetries)\<close>: the job either enters the
  \<^verbatim>\<open>try\<close> block and suspends in \<^verbatim>\<open>downloadTrack\<close>, or returns.
\<close>

definition loop_head :: "nat \<Rightarrow> nat \<Rightarrow> run_state \<Rightarrow> run_state" where
  "loop_head i attempt s =
     (if attempt < maxRetries then s\<lparr>jobs := (jobs s)[i := AwaitDownload attempt]\<rparr>
      else s\<lparr>jobs := (jobs s)[i := Done]\<rparr>)"

text \<open>
  After \<^verbatim>\<open>downloadTrack\<close> has returned:
  \<^verbatim>\<open>mulbar.log(`<check mark> ${logStr}\n`); downloadStatus.success.push(track); break;\<close>
  then the \<^verbatim>\<open>finally\<close> clause, and the \<^verbatim>\<open>break\<close> leaves the loop.
\<close>

definition on_success :: "nat \<Rightarrow> run_state \<Rightarrow> run_state" where
  "on_success i s =
     (let s1 = mulbar_log (check_mark @ '' '' @ logStr (rs_tracks s ! i) @ newline) s;
          s2 = s1\<lparr>success := success s1 @ [i]\<rparr>;
          s3 = finally_clause s2
      in s3\<lparr>jobs := (jobs s3)[i := Done]\<rparr>)"

text \<open>
  After \<^verbatim>\<open>downloadTrack\<close> has raised \<open>e\<close>, the \<^verbatim>\<open>catch\<close> clause:
  \<^verbatim>\<open>attempt++;
  if (attempt === maxRetries) {
    mulbar.log(`x ${logStr}\n`);
    mulbar.log(`Max retries reached. Last error: ${error.message}\n`);
    downloadStatus.failures.push(track);
  } else {
    await new Promise((res) => setTimeout(res, 1000));
  }\<close>
  On the last attempt the \<^verbatim>\<open>finally\<close> clause and the head of the loop follow at
  once; otherwise the job suspends, and they follow when the delay is over.
\<close>

definition on_failure :: "nat \<Rightarrow> nat \<Rightarrow> error \<Rightarrow> run_state \<Rightarrow> run_state" where
  "on_failure i attempt e s =
     (let attempt' = attempt + 1
      in if attempt' = maxRetries then
           (let s1 = mulbar_log (''x '' @ logStr (rs_tracks s ! i) @ newline) s;
                s2 = mulbar_log (''Max retries reached. Last error: '' @ message e @ newline) s1;
                s3 = s2\<lparr>failures := failures s2 @ [i]\<rparr>
            in loop_head i attempt' (finally_clause s3))
         else s\<lparr>jobs := (jobs s)[i := AwaitDelay attempt']\<rparr>)"

definition on_delay_over :: "nat \<Rightarrow> nat \<Rightarrow> run_state \<Rightarrow> run_state" where
  "on_delay_over i attempt s = loop_head i attempt (finally_clause s)"

text \<open>
  The events that resume a job: the queue starts job \<open>i\<close>; the \<^verbatim>\<open>downloadTrack\<close>
  call of job \<open>i\<close> settles (with an error, or returns); the delay of job \<open>i\<close> is over.
  Between two events one job runs undisturbed up to its next suspension point.
\<close>

datatype event = Start nat | Downloaded nat "error + unit" | Delayed nat

definition is_running :: "job_status \<Rightarrow> bool" where
  "is_running j = (case j of AwaitDownload a \<Rightarrow> True | AwaitDelay a \<Rightarrow> True | _ \<Rightarrow> False)"

text \<open>
  One event. The queue starts the jobs in the order of \<^verbatim>\<open>data.tracks\<close>, and only
  while fewer than \<open>concurrency\<close> jobs are running. \<open>None\<close>: the event cannot happen in
  this state.
\<close>

fun step :: "event \<Rightarrow> run_state \<Rightarrow> run_state option" where
  "step (Start i) s =
     (if i < length (jobs s) \<and> jobs s ! i = Queued \<and> Queued \<notin> set (take i (jobs s)) \<and>
         length (filter is_running (jobs s)) < concurrency
      then Some (loop_head i 0 s) else None)"
| "step (Downloaded i r) s =
     (if i < length (jobs s) then
        (case jobs s ! i of
           AwaitDownload attempt \<Rightarrow>
             (case r of Inr u \<Rightarrow> Some (on_success i s)
                      | Inl e \<Rightarrow> Some (on_failure i attempt e s))
         | _ \<Rightarrow> None)
      else None)"
| "step (Delayed i) s =
     (if i < length (jobs s) then
        (case jobs s ! i of
           AwaitDelay attempt \<Rightarrow> Some (on_delay_over i attempt s)
         | _ \<Rightarrow> None)
      else None)"

text \<open>A run: a sequence of events, each possible where it happens.\<close>

fun exec :: "event list \<Rightarrow> run_state \<Rightarrow> run_state option" where
  "exec [] s = Some s"
| "exec (e # es) s = (case step e s of None \<Rightarrow> None | Some s' \<Rightarrow> exec es s')"

text \<open>
  The state in which \<^verbatim>\<open>queue.addAll\<close> is called: \<^verbatim>\<open>downloadStatus\<close> and the
  bar are new, one job per track is to be queued.
\<close>

definition start_run :: "SpotifyTrack list \<Rightarrow> printed list \<Rightarrow> run_state" where
  "start_run tracks printed =
     \<lparr>rs_tracks = tracks, expectedCount = length tracks, success = [], failures = [],
      bar = \<lparr>bar_total = length tracks, bar_value = 0, bar_success = 0, bar_failure = 0\<rparr>,
      jobs = replicate (length tracks) Queued, out = printed\<rparr>"

text \<open>\<^verbatim>\<open>await queue.addAll(...)\<close> returns when every job has returned.\<close>

definition all_done :: "run_state \<Rightarrow> bool" where
  "all_done s = list_all (\<lambda>j. j = Done) (jobs s)"

text \<open>The number of summary blocks printed, by their first line.\<close>

definition summaries :: "printed list \<Rightarrow> nat" where
  "summaries ls = length (filter (\<lambda>l. l = BarLog summary_header) ls)"

text \<open>The lines of the top-level \<^verbatim>\<open>catch\<close> clause and of the other error handlers.\<close>

fun is_error_line :: "printed \<Rightarrow> bool" where
  "is_error_line (ConsoleError l) = True"
| "is_error_line (ConsoleLog l) = False"
| "is_error_line (BarLog l) = False"

text \<open>The attempts of job \<open>i\<close> that have failed, and that have succeeded, in a run.\<close>

fun is_failure_of :: "nat \<Rightarrow> event \<Rightarrow> bool" where
  "is_failure_of i (Downloaded j (Inl e)) = (j = i)"
| "is_failure_of i (Downloaded j (Inr u)) = False"
| "is_failure_of i (Start j) = False"
| "is_failure_of i (Delayed j) = False"

fun is_success_of :: "nat \<Rightarrow> event \<Rightarrow> bool" where
  "is_success_of i (Downloaded j (Inr u)) = (j = i)"
| "is_success_of i (Downloaded j (Inl e)) = False"
| "is_success_of i (Start j) = False"
| "is_success_of i (Delayed j) = False"

definition failed_attempts :: "nat \<Rightarrow> event list \<Rightarrow> nat" where
  "failed_attempts i es = length (filter (is_failure_of i) es)"

definition successful_attempts :: "nat \<Rightarrow> event list \<Rightarrow> nat" where
  "successful_attempts i es = length (filter (is_success_of i) es)"

text \<open>The calls of \<^verbatim>\<open>downloadTrack\<close> job \<open>i\<close> has made: the settled ones and the one in flight.\<close>

definition attempts_made :: "nat \<Rightarrow> event list \<Rightarrow> run_state \<Rightarrow> nat" where
  "attempts_made i es s =
     failed_attempts i es + successful_attempts i es +
     (case jobs s ! i of AwaitDownload a \<Rightarrow> 1 | _ \<Rightarrow> 0)"

section \<open>The command handler\<close>

text \<open>
  \<^verbatim>\<open>const subPath = data.type === "album"
    ? `albums/${sanitizeFilename(`${data.artist} - ${data.title}`)}`
    : `playlists/${sanitizeFilename(`${data.owner} - ${data.name}`)}`;
  const fullPath = path.resolve(`${customPath}/spotify-dl/${subPath}`);\<close>
\<close>

definition subPath :: "env \<Rightarrow> SpotifyResource \<Rightarrow> string" where
  "subPath E data =
     (case res_info data of
        AlbumInfo title artist \<Rightarrow>
          ''albums/'' @ sanitizeFilename E (artist @ '' - '' @ to_string title)
      | PlaylistInfo name owner \<Rightarrow>
          ''playlists/'' @ sanitizeFilename E (to_string owner @ '' - '' @ to_string name))"

definition fullPath :: "env \<Rightarrow> string \<Rightarrow> SpotifyResource \<Rightarrow> string" where
  "fullPath E customPath data = path_resolve E (customPath @ ''/spotify-dl/'' @ subPath E data)"

text \<open>The lines printed between \<^verbatim>\<open>fs.ensureDir\<close> and \<^verbatim>\<open>mulbar.create\<close>.\<close>

definition banner :: "env \<Rightarrow> string \<Rightarrow> SpotifyResource \<Rightarrow> printed list" where
  "banner E customPath data =
     [ConsoleLog (''Saving files to: '' @ fullPath E customPath data),
      ConsoleLog ''Downloading Spotify resource:''] @
     (case res_info data of
        AlbumInfo title artist \<Rightarrow>
          [ConsoleLog ''  Type   : album'',
           ConsoleLog (''  Id     : '' @ to_string (res_id data)),
           ConsoleLog (''  Title  : '' @ to_string title),
           ConsoleLog (''  Artist : '' @ artist)]
      | PlaylistInfo name owner \<Rightarrow>
          [ConsoleLog ''  Type   : playlist'',
           ConsoleLog (''  Id     : '' @ to_string (res_id data)),
           ConsoleLog (''  Name   : '' @ to_string name),
           ConsoleLog (''  Owner  : '' @ to_string owner)]) @
     [ConsoleLog (''  Tracks : '' @ string_of_nat (length (res_tracks data))),
      ConsoleLog '''']"

text \<open>
  The \<^verbatim>\<open>try\<close> block of the handler up to the call of \<^verbatim>\<open>queue.addAll\<close>:
  parse the URL, resolve the resource, ensure the directory, print the banner, create
  \<^verbatim>\<open>downloadStatus\<close> and the bar. \<open>Inl\<close>: an error was raised on the way.
\<close>

definition handler_try ::
  "env \<Rightarrow> string \<Rightarrow> string \<Rightarrow> world \<Rightarrow> ((error + run_state) \<times> world) option" where
  "handler_try E urlString customPath w =
     (case parseSpotifyUrl (URL_new E) urlString of
        Inl e \<Rightarrow> Some (Inl e, w)
      | Inr (type, rid) \<Rightarrow>
          (case getSpotifyResource E type rid w of
             None \<Rightarrow> None
           | Some (Inl e, w1) \<Rightarrow> Some (Inl e, w1)
           | Some (Inr data, w1) \<Rightarrow>
               (case ensureDir_fails E (fullPath E customPath data) of
                  Some e \<Rightarrow> Some (Inl e, w1)
                | None \<Rightarrow>
                    (let w2 = w1\<lparr>dirs := dirs w1 @ [fullPath E customPath data],
                                  console := console w1 @ banner E customPath data\<rparr>
                     in Some (Inr (start_run (res_tracks data) (console w2)), w2)))))"

text \<open>
  The handler with its \<^verbatim>\<open>catch\<close> clause,
  \<^verbatim>\<open>console.error("Error:", error.message)\<close>. \<open>Some s\<close>: the run starts in state
  \<open>s\<close>; \<open>None\<close>: the handler is over without a run.
\<close>

definition handler ::
  "env \<Rightarrow> string \<Rightarrow> string \<Rightarrow> world \<Rightarrow> (run_state option \<times> world) option" where
  "handler E urlString customPath w =
     (case handler_try E urlString customPath w of
        None \<Rightarrow> None
      | Some (Inl e, w') \<Rightarrow>
          Some (None, w'\<lparr>console := console w' @ [ConsoleError (''Error: '' @ message e)]\<rparr>)
      | Some (Inr s, w') \<Rightarrow> Some (Some s, w'))"

section \<open>Example inputs\<close>

definition ex_flat :: raw_item where
  "ex_flat = \<lparr>it_id = Str ''t1'', it_name = Str ''One'',
              it_artists = Some [\<lparr>artist_name = Str ''A''\<rparr>, \<lparr>artist_name = Str ''B''\<rparr>],
              it_track = None\<rparr>"

definition ex_wrapped :: raw_item where
  "ex_wrapped = \<lparr>it_id = Undefined, it_name = Undefined, it_artists = None,
     it_track = Some \<lparr>rt_id = Str ''t2'', rt_name = Str ''Two'',
                      rt_artists = Some [\<lparr>artist_name = Str ''C''\<rparr>]\<rparr>\<rparr>"

definition ex_tracks :: "SpotifyTrack list" where
  "ex_tracks = [\<lparr>track_id = Str ''t1'', track_name = Str ''One'', track_artist = ''A, B''\<rparr>,
                \<lparr>track_id = Str ''t2'', track_name = Str ''Two'', track_artist = ''C''\<rparr>]"

definition ex_error :: error where
  "ex_error = Error ''Request failed with status code 500''"

text \<open>
  A run over two tracks: the first track is fetched at the second attempt, the second
  fails five times.
\<close>

definition ex_events :: "event list" where
  "ex_events =
     [Start 0, Start 1,
      Downloaded 1 (Inl ex_error), Downloaded 0 (Inl ex_error),
      Delayed 0, Delayed 1,
      Downloaded 0 (Inr ()), Downloaded 1 (Inl ex_error),
      Delayed 1, Downloaded 1 (Inl ex_error),
      Delayed 1, Downloaded 1 (Inl ex_error),
      Delayed 1, Downloaded 1 (Inl ex_error)]"

definition ex_start :: run_state where
  "ex_start = start_run ex_tracks []"

text \<open>A token endpoint that answers, but with no \<^verbatim>\<open>accessToken\<close> in the response.\<close>

definition ex_env_no_token :: env where
  "ex_env_no_token =
     \<lparr>URL_new = (\<lambda>s. Inl (TypeError ''Invalid URL'')),
      token_endpoint = Inr (Some Undefined),
      api_get = (\<lambda>u a. Inl (Error ''Request failed with status code 401'')),
      sanitizeFilename = (\<lambda>s. s),
      path_resolve = (\<lambda>s. s),
      ensureDir_fails = (\<lambda>p. None)\<rparr>"

definition ex_world :: world where
  "ex_world = \<lparr>accessToken = Null, requests = [], console = [], dirs = []\<rparr>"


text \<open>The same, with a token endpoint that hands out a token.\<close>

definition ex_env_token :: env where
  "ex_env_token = ex_env_no_token\<lparr>token_endpoint := Inr (Some (Str ''BQD1''))\<rparr>"

text \<open>A \<^verbatim>\<open>URL\<close> constructor that knows three strings.\<close>

definition ex_URL :: "string \<Rightarrow> error + url" where
  "ex_URL s =
     (if s = ''https://open.spotify.com/album/6kxY4y?si=uhqo'' then
        Inr \<lparr>url_hostname = ''open.spotify.com'', url_pathname = ''/album/6kxY4y''\<rparr>
      else if s = ''https://open.spotify.com/playlist/37i9/extra'' then
        Inr \<lparr>url_hostname = ''open.spotify.com'', url_pathname = ''/playlist/37i9/extra''\<rparr>
      else if s = ''https://example.com/album/6kxY4y'' then
        Inr \<lparr>url_hostname = ''example.com'', url_pathname = ''/album/6kxY4y''\<rparr>
      else Inl (TypeError ''Invalid URL''))"

definition ex_wrapped2 :: raw_item where
  "ex_wrapped2 = \<lparr>it_id = Undefined, it_name = Undefined, it_artists = None,
     it_track = Some \<lparr>rt_id = Str ''t3'', rt_name = Str ''Three'',
                      rt_artists = Some [\<lparr>artist_name = Str ''D''\<rparr>, \<lparr>artist_name = Str ''E''\<rparr>]\<rparr>\<rparr>"

definition ex_page2_url :: string where
  "ex_page2_url = ''https://api.spotify.com/v1/playlists/37i9/tracks?offset=1''"

text \<open>
  A metadata service with a playlist of two pages, one track each, and an album with
  no track.
\<close>

definition ex_api :: "string \<Rightarrow> string \<Rightarrow> error + api_data" where
  "ex_api u auth =
     (if auth \<noteq> ''Bearer BQD1'' then Inl (Error ''Request failed with status code 401'')
      else if u = ''https://api.spotify.com/v1/playlists/37i9'' then
        Inr \<lparr>d_id = Str ''37i9'', d_name = Str ''Mix'', d_artists = None,
             d_owner = Some (Str ''me''),
             d_tracks = Some \<lparr>pg_items = Some [ex_wrapped], pg_next = Str ex_page2_url\<rparr>,
             d_items = None, d_next = Undefined\<rparr>
      else if u = ex_page2_url then
        Inr \<lparr>d_id = Undefined, d_name = Undefined, d_artists = None, d_owner = None,
             d_tracks = None, d_items = Some [ex_wrapped2], d_next = Null\<rparr>
      else if u = ''https://api.spotify.com/v1/albums/6kxY4y'' then
        Inr \<lparr>d_id = Str ''6kxY4y'', d_name = Str ''Silence'',
             d_artists = Some [\<lparr>artist_name = Str ''A''\<rparr>], d_owner = None,
             d_tracks = Some \<lparr>pg_items = Some [], pg_next = Null\<rparr>,
             d_items = None, d_next = Undefined\<rparr>
      else Inl (Error ''Request failed with status code 404''))"

definition ex_env :: env where
  "ex_env = ex_env_token\<lparr>URL_new := ex_URL, api_get := ex_api\<rparr>"


definition ex_track :: SpotifyTrack where
  "ex_track = \<lparr>track_id = Str ''t1'', track_name = Str ''One'', track_artist = ''A, B''\<rparr>"

text \<open>A playlist that lists the same track twice; the first job succeeds, the second fails.\<close>

definition ex_twice :: "SpotifyTrack list" where
  "ex_twice = [ex_track, ex_track]"

definition ex_twice_events :: "event list" where
  "ex_twice_events =
     [Start 0, Start 1, Downloaded 0 (Inr ()),
      Downloaded 1 (Inl ex_error), Delayed 1, Downloaded 1 (Inl ex_error), Delayed 1,
      Downloaded 1 (Inl ex_error), Delayed 1, Downloaded 1 (Inl ex_error), Delayed 1,
      Downloaded 1 (Inl ex_error)]"

section \<open>Invariants of a run\<close>

text \<open>The jobs that have returned.\<close>

definition done_set :: "job_status list \<Rightarrow> nat set" where
  "done_set js = {i. i < length js \<and> js ! i = Done}"

text \<open>Every suspended job has attempts left.\<close>

definition attempts_left :: "job_status list \<Rightarrow> bool" where
  "attempts_left js =
     list_all (\<lambda>j. case j of AwaitDownload a \<Rightarrow> a < maxRetries
                         | AwaitDelay a \<Rightarrow> a < maxRetries
                         | _ \<Rightarrow> True) js"

text \<open>
  What holds between any two events of a run that started with \<open>b\<close> summary blocks
  already printed: the counters agree with the number of jobs, the two arrays together
  hold exactly the jobs that have returned, each once, a suspended job has attempts
  left, and a summary block has been printed exactly if there are jobs and all have
  returned.
\<close>

definition run_inv :: "nat \<Rightarrow> run_state \<Rightarrow> bool" where
  "run_inv b s =
     (expectedCount s = length (jobs s) \<and> bar_total (bar s) = length (jobs s) \<and>
      length (rs_tracks s) = length (jobs s) \<and>
      distinct (success s @ failures s) \<and>
      set (success s) \<union> set (failures s) = done_set (jobs s) \<and>
      attempts_left (jobs s) \<and>
      summaries (out s) = b + (if all_done s \<and> jobs s \<noteq> [] then 1 else 0))"

text \<open>
  How the events of job \<open>i\<close> so far and its place in the run fit together.
\<close>

definition job_inv :: "nat \<Rightarrow> event list \<Rightarrow> run_state \<Rightarrow> bool" where
  "job_inv i es s =
     (case jobs s ! i of
        Queued \<Rightarrow> failed_attempts i es = 0 \<and> successful_attempts i es = 0
      | AwaitDownload a \<Rightarrow> failed_attempts i es = a \<and> successful_attempts i es = 0
      | AwaitDelay a \<Rightarrow> failed_attempts i es = a \<and> successful_attempts i es = 0
      | Done \<Rightarrow>
          (successful_attempts i es = 1 \<and> failed_attempts i es < maxRetries \<and>
             i \<in> set (success s)) \<or>
          (successful_attempts i es = 0 \<and> failed_attempts i es = maxRetries \<and>
             i \<in> set (failures s)))"

text \<open>
  The events a job can still take part in, at most: a queued job is started and then
  makes five attempts with four delays between them.
\<close>

fun events_left :: "job_status \<Rightarrow> nat" where
  "events_left Queued = 10"
| "events_left (AwaitDownload a) = 9 - 2 * a"
| "events_left (AwaitDelay a) = 10 - 2 * a"
| "events_left Done = 0"

definition run_events_left :: "run_state \<Rightarrow> nat" where
  "run_events_left s = sum_list (map events_left (jobs s))"

section \<open>Normalizing raw items\<close>

lemma join_loop_pos:
  "0 < k \<Longrightarrow> join_loop sep xs k R = R @ concat (map (\<lambda>x. sep @ join_elem x) xs)"
  by (induction xs arbitrary: k R) auto

lemma names_joined_Cons:
  "names_joined (a # as) =
     join_elem (artist_name a) @ concat (map (\<lambda>x. '', '' @ join_elem (artist_name x)) as)"
  by (induction as arbitrary: a) auto

lemma join_names: "join '', '' (map artist_name as) = names_joined as"
proof (cases as)
  case Nil
  then show ?thesis by (simp add: join_def)
next
  case (Cons a bs)
  then show ?thesis
    by (simp add: join_def join_loop_pos names_joined_Cons comp_def del: names_joined.simps)
qed

lemma getTrack_flat:
  "flat_item it \<Longrightarrow>
   getTrack it = Inr \<lparr>track_id = it_id it, track_name = it_name it,
                       track_artist = names_joined (the (it_artists it))\<rparr>"
  by (auto simp: flat_item_def getTrack_def getArtistFromArtists_def join_names)

lemma getTrack_wrapped:
  "wrapped_item it \<Longrightarrow>
   getTrack it = Inr \<lparr>track_id = rt_id (the (it_track it)), track_name = rt_name (the (it_track it)),
                       track_artist = names_joined (the (rt_artists (the (it_track it))))\<rparr>"
  by (auto simp: wrapped_item_def getTrack_def getArtistFromArtists_def join_names
           split: option.splits)

lemma map_items_ok:
  "\<forall>it \<in> set its. \<exists>t. getTrack it = Inr t \<Longrightarrow> map_items its = Inr (tracks_of its)"
  by (induction its) (auto simp: tracks_of_def)

lemma shaped_ok:
  "\<forall>it \<in> set its. flat_item it \<or> wrapped_item it \<Longrightarrow> \<forall>it \<in> set its. \<exists>t. getTrack it = Inr t"
  using getTrack_flat getTrack_wrapped by blast

lemma getTracks_shaped:
  "\<forall>it \<in> set its. flat_item it \<or> wrapped_item it \<Longrightarrow> getTracks (Some its) = Inr (tracks_of its)"
  by (simp add: getTracks_def map_items_ok shaped_ok)

text \<open>
  C8. Every raw item of a list, flat or wrapped, becomes one track, in order: the track of
  a flat item has the item's \<open>id\<close> and \<open>name\<close>, the track of a wrapped item those of the
  nested track object, and in both cases the \<open>artist\<close> field is the names of the
  artists, in their order, with \<open>'', ''\<close> between them.
\<close>

theorem getTracks_normalizes:
  assumes "\<forall>it \<in> set items. flat_item it \<or> wrapped_item it"
  shows "\<exists>ts. getTracks (Some items) = Inr ts \<and> length ts = length items \<and>
     (\<forall>i < length items.
        (flat_item (items ! i) \<longrightarrow>
           ts ! i = \<lparr>track_id = it_id (items ! i), track_name = it_name (items ! i),
                     track_artist = names_joined (the (it_artists (items ! i)))\<rparr>) \<and>
        (wrapped_item (items ! i) \<longrightarrow>
           ts ! i = \<lparr>track_id = rt_id (the (it_track (items ! i))),
                     track_name = rt_name (the (it_track (items ! i))),
                     track_artist = names_joined (the (rt_artists (the (it_track (items ! i)))))\<rparr>))"
proof -
  have "getTracks (Some items) = Inr (tracks_of items)"
    using assms by (rule getTracks_shaped)
  then show ?thesis
    by (auto simp: tracks_of_def getTrack_flat getTrack_wrapped)
qed

theorem getTracks_normalizes_witness:
  "getTracks (Some [ex_flat, ex_wrapped]) =
     Inr [\<lparr>track_id = Str ''t1'', track_name = Str ''One'', track_artist = ''A, B''\<rparr>,
          \<lparr>track_id = Str ''t2'', track_name = Str ''Two'', track_artist = ''C''\<rparr>]"
proof -
  let ?items = "[ex_flat, ex_wrapped]"
  have f: "flat_item ex_flat" by (simp add: flat_item_def ex_flat_def)
  have w: "wrapped_item ex_wrapped" by (simp add: wrapped_item_def ex_wrapped_def)
  have h: "\<forall>it \<in> set ?items. flat_item it \<or> wrapped_item it"
    using f w by simp
  obtain ts where ts: "getTracks (Some ?items) = Inr ts" "length ts = 2"
    and el: "\<forall>i < length ?items.
        (flat_item (?items ! i) \<longrightarrow>
           ts ! i = \<lparr>track_id = it_id (?items ! i), track_name = it_name (?items ! i),
                     track_artist = names_joined (the (it_artists (?items ! i)))\<rparr>) \<and>
        (wrapped_item (?items ! i) \<longrightarrow>
           ts ! i = \<lparr>track_id = rt_id (the (it_track (?items ! i))),
                     track_name = rt_name (the (it_track (?items ! i))),
                     track_artist = names_joined (the (rt_artists (the (it_track (?items ! i)))))\<rparr>)"
    using getTracks_normalizes [OF h] by auto
  from el [rule_format, of 0] f
  have t0: "ts ! 0 = \<lparr>track_id = Str ''t1'', track_name = Str ''One'', track_artist = ''A, B''\<rparr>"
    by (simp add: ex_flat_def)
  from el [rule_format, of 1] w
  have t1: "ts ! 1 = \<lparr>track_id = Str ''t2'', track_name = Str ''Two'', track_artist = ''C''\<rparr>"
    by (simp add: ex_wrapped_def)
  from ts(2) obtain a b where "ts = [a, b]"
    by (cases ts; cases "tl ts"; auto)
  with t0 t1 ts show ?thesis by simp
qed

section \<open>Properties of a run\<close>

lemma not_header [simp]:
  "''  Total Count: '' @ x \<noteq> summary_header"
  "''  Successful : '' @ x \<noteq> summary_header"
  "''  Failures   : '' @ x \<noteq> summary_header"
  "check_mark @ x \<noteq> summary_header"
  "''x '' @ x \<noteq> summary_header"
  "''Max retries reached. Last error: '' @ x \<noteq> summary_header"
  by (simp_all add: summary_header_def newline_def check_mark_def)

lemma not_header_char [simp]: "c \<noteq> CHR 0x0A \<Longrightarrow> c # x \<noteq> summary_header"
  by (simp add: summary_header_def newline_def)

lemma summaries_append [simp]: "summaries (xs @ ys) = summaries xs + summaries ys"
  by (simp add: summaries_def)

lemma summaries_Nil [simp]: "summaries [] = 0"
  by (simp add: summaries_def)

lemma summaries_Cons [simp]:
  "summaries (BarLog l # ls) = (if l = summary_header then 1 else 0) + summaries ls"
  by (simp add: summaries_def)

lemma finally_clause_fields [simp]:
  "jobs (finally_clause s) = jobs s"
  "success (finally_clause s) = success s"
  "failures (finally_clause s) = failures s"
  "expectedCount (finally_clause s) = expectedCount s"
  "rs_tracks (finally_clause s) = rs_tracks s"
  "bar_total (bar (finally_clause s)) = bar_total (bar s)"
  by (simp_all add: finally_clause_def Let_def mulbar_log_def bar_set_def)

lemma summaries_block:
  "summaries [BarLog summary_header, BarLog (''  Total Count: '' @ a),
      BarLog (''  Successful : '' @ b), BarLog (''  Failures   : '' @ c)] = 1"
  by (simp add: summaries_def summary_header_def newline_def)

lemma finally_clause_out:
  "out (finally_clause s) =
     out s @
     (if bar_total (bar s) = 0 \<or> bar_total (bar s) \<le> length (success s) + length (failures s)
      then [BarLog summary_header,
            BarLog (''  Total Count: '' @ (string_of_nat (expectedCount s) @ newline)),
            BarLog (''  Successful : '' @ (string_of_nat (length (success s)) @ newline)),
            BarLog (''  Failures   : '' @ (string_of_nat (length (failures s)) @ newline))]
      else [])"
  by (simp add: finally_clause_def Let_def mulbar_log_def bar_set_def getProgress_is_1_def)

lemma finally_clause_summaries:
  "summaries (out (finally_clause s)) =
     summaries (out s) +
     (if bar_total (bar s) = 0 \<or> bar_total (bar s) \<le> length (success s) + length (failures s)
      then 1 else 0)"
  unfolding finally_clause_out by (simp only: summaries_append summaries_block split: if_split) (simp add: summaries_def)

lemma finally_clause_errors [simp]:
  "filter is_error_line (out (finally_clause s)) = filter is_error_line (out s)"
  unfolding finally_clause_out by simp


lemma loop_head_fields [simp]:
  "success (loop_head i a s) = success s"
  "failures (loop_head i a s) = failures s"
  "expectedCount (loop_head i a s) = expectedCount s"
  "rs_tracks (loop_head i a s) = rs_tracks s"
  "bar (loop_head i a s) = bar s"
  "out (loop_head i a s) = out s"
  "jobs (loop_head i a s) = (jobs s)[i := (if a < maxRetries then AwaitDownload a else Done)]"
  by (simp_all add: loop_head_def)

lemma on_success_fields [simp]:
  "jobs (on_success i s) = (jobs s)[i := Done]"
  "success (on_success i s) = success s @ [i]"
  "failures (on_success i s) = failures s"
  "expectedCount (on_success i s) = expectedCount s"
  "rs_tracks (on_success i s) = rs_tracks s"
  "bar_total (bar (on_success i s)) = bar_total (bar s)"
  "filter is_error_line (out (on_success i s)) = filter is_error_line (out s)"
  by (simp_all add: on_success_def Let_def mulbar_log_def)

lemma on_success_summaries:
  "summaries (out (on_success i s)) =
     summaries (out s) +
     (if bar_total (bar s) = 0 \<or> bar_total (bar s) \<le> Suc (length (success s) + length (failures s))
      then 1 else 0)"
  by (simp add: on_success_def Let_def mulbar_log_def finally_clause_summaries)

lemma on_failure_last_fields:
  assumes "Suc a = maxRetries"
  shows "jobs (on_failure i a e s) = (jobs s)[i := Done]"
    "success (on_failure i a e s) = success s"
    "failures (on_failure i a e s) = failures s @ [i]"
    "expectedCount (on_failure i a e s) = expectedCount s"
    "rs_tracks (on_failure i a e s) = rs_tracks s"
    "bar_total (bar (on_failure i a e s)) = bar_total (bar s)"
    "filter is_error_line (out (on_failure i a e s)) = filter is_error_line (out s)"
    "summaries (out (on_failure i a e s)) =
       summaries (out s) +
       (if bar_total (bar s) = 0 \<or> bar_total (bar s) \<le> Suc (length (success s) + length (failures s))
        then 1 else 0)"
  using assms
  by (simp_all add: on_failure_def Let_def mulbar_log_def finally_clause_summaries)

lemma on_failure_retry:
  "Suc a \<noteq> maxRetries \<Longrightarrow> on_failure i a e s = s\<lparr>jobs := (jobs s)[i := AwaitDelay (Suc a)]\<rparr>"
  by (simp add: on_failure_def)

lemma on_delay_over_fields [simp]:
  "jobs (on_delay_over i a s) = (jobs s)[i := (if a < maxRetries then AwaitDownload a else Done)]"
  "success (on_delay_over i a s) = success s"
  "failures (on_delay_over i a s) = failures s"
  "expectedCount (on_delay_over i a s) = expectedCount s"
  "rs_tracks (on_delay_over i a s) = rs_tracks s"
  "bar_total (bar (on_delay_over i a s)) = bar_total (bar s)"
  "filter is_error_line (out (on_delay_over i a s)) = filter is_error_line (out s)"
  "summaries (out (on_delay_over i a s)) =
     summaries (out s) +
     (if bar_total (bar s) = 0 \<or> bar_total (bar s) \<le> length (success s) + length (failures s)
      then 1 else 0)"
  by (simp_all add: on_delay_over_def finally_clause_summaries)

lemma done_set_finite [simp]: "finite (done_set js)"
  by (simp add: done_set_def)

lemma done_set_below: "done_set js \<subseteq> {..<length js}"
  by (auto simp: done_set_def)

lemma done_set_update_Done:
  "i < length js \<Longrightarrow> done_set (js[i := Done]) = insert i (done_set js)"
  by (auto simp: done_set_def nth_list_update)

lemma done_set_update_other:
  "j \<noteq> Done \<Longrightarrow> done_set (js[i := j]) = done_set js - {i}"
proof (cases "i < length js")
  case True
  assume "j \<noteq> Done"
  with True show ?thesis by (auto simp: done_set_def nth_list_update)
next
  case False
  then show ?thesis by (auto simp: done_set_def)
qed

lemma done_set_not_Done:
  "js ! i \<noteq> Done \<Longrightarrow> i \<notin> done_set js"
  by (simp add: done_set_def)

lemma all_done_iff: "list_all (\<lambda>j. j = Done) js \<longleftrightarrow> done_set js = {..<length js}"
  by (auto simp: done_set_def list_all_length)

lemma card_done_set_less:
  assumes "i < length js" "js ! i \<noteq> Done"
  shows "card (done_set js) < length js"
proof -
  have "done_set js \<subseteq> {..<length js} - {i}"
    using assms done_set_below [of js] by (auto simp: done_set_def)
  then have "card (done_set js) \<le> card ({..<length js} - {i})"
    by (intro card_mono) auto
  also have "\<dots> < length js" using assms by simp
  finally show ?thesis .
qed

lemma card_done_set_full:
  "card (done_set js) = length js \<longleftrightarrow> done_set js = {..<length js}"
proof
  assume "card (done_set js) = length js"
  then show "done_set js = {..<length js}"
    using done_set_below [of js] by (intro card_subset_eq) auto
qed simp

lemma settled_card:
  "distinct (xs @ ys) \<Longrightarrow> set xs \<union> set ys = D \<Longrightarrow> length xs + length ys = card D"
  using distinct_card [of "xs @ ys"] by simp

lemma maxRetries_pos [simp]: "0 < maxRetries"
  by (simp add: maxRetries_def)

lemma all_done_jobs: "all_done s \<longleftrightarrow> done_set (jobs s) = {..<length (jobs s)}"
  by (simp add: all_done_def all_done_iff)

lemma not_all_done:
  "i < length (jobs s) \<Longrightarrow> jobs s ! i \<noteq> Done \<Longrightarrow> \<not> all_done s"
  by (auto simp: all_done_def list_all_length)

lemma attempts_left_update:
  assumes "attempts_left js"
    and "case st of AwaitDownload a \<Rightarrow> a < maxRetries | AwaitDelay a \<Rightarrow> a < maxRetries | _ \<Rightarrow> True"
  shows "attempts_left (js[i := st])"
proof -
  have "set (js[i := st]) \<subseteq> insert st (set js)" by (rule set_update_subset_insert)
  with assms show ?thesis
    unfolding attempts_left_def list_all_iff by blast
qed

lemma attempts_left_nth:
  "attempts_left js \<Longrightarrow> i < length js \<Longrightarrow>
   (js ! i = AwaitDownload a \<or> js ! i = AwaitDelay a) \<Longrightarrow> a < maxRetries"
  unfolding attempts_left_def list_all_length by (auto split: job_status.splits)

lemma run_invD:
  assumes "run_inv b s"
  shows "expectedCount s = length (jobs s)" "bar_total (bar s) = length (jobs s)"
    "length (rs_tracks s) = length (jobs s)" "distinct (success s @ failures s)"
    "set (success s) \<union> set (failures s) = done_set (jobs s)" "attempts_left (jobs s)"
    "summaries (out s) = b + (if all_done s \<and> jobs s \<noteq> [] then 1 else 0)"
  using assms unfolding run_inv_def by blast+

lemma run_invI:
  assumes "expectedCount s = length (jobs s)" "bar_total (bar s) = length (jobs s)"
    "length (rs_tracks s) = length (jobs s)" "distinct (success s @ failures s)"
    "set (success s) \<union> set (failures s) = done_set (jobs s)" "attempts_left (jobs s)"
    "summaries (out s) = b + (if all_done s \<and> jobs s \<noteq> [] then 1 else 0)"
  shows "run_inv b s"
  using assms unfolding run_inv_def by blast

lemma run_inv_settled:
  "run_inv b s \<Longrightarrow> length (success s) + length (failures s) = card (done_set (jobs s))"
  by (rule settled_card) (rule run_invD, assumption)+

text \<open>A job that returns: the arrays gain its reference, and the summary is printed
  exactly if it was the last one.\<close>

lemma run_inv_settle:
  assumes inv: "run_inv b s" and i: "i < length (jobs s)" and nd: "jobs s ! i \<noteq> Done"
    and j: "jobs s' = (jobs s)[i := Done]"
    and arrays: "success s' = success s @ [i] \<and> failures s' = failures s \<or>
                 success s' = success s \<and> failures s' = failures s @ [i]"
    and same: "expectedCount s' = expectedCount s" "rs_tracks s' = rs_tracks s"
      "bar_total (bar s') = bar_total (bar s)"
    and sm: "summaries (out s') = summaries (out s) +
       (if bar_total (bar s) = 0 \<or> bar_total (bar s) \<le> Suc (length (success s) + length (failures s))
        then 1 else 0)"
  shows "run_inv b s'"
proof (rule run_invI)
  let ?n = "length (jobs s)"
  note D = run_invD [OF inv]
  have len: "length (jobs s') = ?n" by (simp add: j)
  show "expectedCount s' = length (jobs s')" by (simp add: same D len)
  show "bar_total (bar s') = length (jobs s')" by (simp add: same D len)
  show "length (rs_tracks s') = length (jobs s')" by (simp add: same D len)
  have notin: "i \<notin> done_set (jobs s)" using nd by (rule done_set_not_Done)
  have ds': "done_set (jobs s') = insert i (done_set (jobs s))"
    using i by (simp add: j done_set_update_Done)
  have fresh: "i \<notin> set (success s)" "i \<notin> set (failures s)"
    using D(5) notin by auto
  show "distinct (success s' @ failures s')"
    using arrays D(4) fresh by auto
  show "set (success s') \<union> set (failures s') = done_set (jobs s')"
  proof -
    have "set (success s') \<union> set (failures s') = insert i (set (success s) \<union> set (failures s))"
      using arrays by (elim disjE conjE) simp_all
    then show ?thesis by (simp only: D(5) ds')
  qed
  show "attempts_left (jobs s')"
    unfolding j by (rule attempts_left_update [OF D(6)]) simp
  have card: "length (success s) + length (failures s) = card (done_set (jobs s))"
    using inv by (rule run_inv_settled)
  have less: "card (done_set (jobs s)) < ?n" using i nd by (rule card_done_set_less)
  have nd_s: "\<not> all_done s" using i nd by (rule not_all_done)
  have "all_done s' \<longleftrightarrow> card (done_set (jobs s')) = length (jobs s')"
    by (simp add: all_done_jobs card_done_set_full)
  also have "\<dots> \<longleftrightarrow> Suc (card (done_set (jobs s))) = ?n"
    unfolding ds' len using notin by simp
  finally have ad: "all_done s' \<longleftrightarrow> Suc (card (done_set (jobs s))) = ?n" .
  have ne: "jobs s' \<noteq> []" using i len by (cases "jobs s'") auto
  have old: "summaries (out s) = b" using D(7) nd_s by simp
  have n0: "?n \<noteq> 0" using i by (cases "jobs s") auto
  have cond: "(?n = 0 \<or> ?n \<le> Suc (card (done_set (jobs s)))) \<longleftrightarrow>
      (all_done s' \<and> jobs s' \<noteq> [])"
    unfolding ad using less n0 ne by arith
  show "summaries (out s') = b + (if all_done s' \<and> jobs s' \<noteq> [] then 1 else 0)"
    unfolding sm old D(2) card by (simp only: cond)
qed

text \<open>A job that goes on: the arrays stay, and no summary is printed.\<close>

lemma run_inv_continue:
  assumes inv: "run_inv b s" and i: "i < length (jobs s)" and nd: "jobs s ! i \<noteq> Done"
    and j: "jobs s' = (jobs s)[i := st]" and st: "st = AwaitDownload a \<or> st = AwaitDelay a"
    and a: "a < maxRetries"
    and same: "success s' = success s" "failures s' = failures s"
      "expectedCount s' = expectedCount s" "rs_tracks s' = rs_tracks s"
      "bar_total (bar s') = bar_total (bar s)"
    and sm: "summaries (out s') = summaries (out s) \<or>
       summaries (out s') = summaries (out s) +
       (if bar_total (bar s) = 0 \<or> bar_total (bar s) \<le> length (success s) + length (failures s)
        then 1 else 0)"
  shows "run_inv b s'"
proof (rule run_invI)
  let ?n = "length (jobs s)"
  note D = run_invD [OF inv]
  have len: "length (jobs s') = ?n" by (simp add: j)
  show "expectedCount s' = length (jobs s')" by (simp add: same D len)
  show "bar_total (bar s') = length (jobs s')" by (simp add: same D len)
  show "length (rs_tracks s') = length (jobs s')" by (simp add: same D len)
  have stnd: "st \<noteq> Done" using st by auto
  have ds': "done_set (jobs s') = done_set (jobs s)"
    using nd stnd by (simp add: j done_set_update_other done_set_not_Done)
  show "distinct (success s' @ failures s')" by (simp only: same D)
  show "set (success s') \<union> set (failures s') = done_set (jobs s')"
    by (simp only: same D ds')
  show "attempts_left (jobs s')"
    unfolding j by (rule attempts_left_update [OF D(6)]) (use st a in auto)
  have card: "length (success s) + length (failures s) = card (done_set (jobs s))"
    using inv by (rule run_inv_settled)
  have less: "card (done_set (jobs s)) < ?n" using i nd by (rule card_done_set_less)
  have nd_s: "\<not> all_done s" using i nd by (rule not_all_done)
  have nd_s': "\<not> all_done s'"
    by (rule not_all_done [of i]) (use i stnd in \<open>auto simp: j\<close>)
  have old: "summaries (out s) = b" using D(7) nd_s by simp
  have n0: "?n \<noteq> 0" using i by (cases "jobs s") auto
  have "summaries (out s') = summaries (out s)"
    using sm less n0 unfolding D(2) card by auto
  then show "summaries (out s') = b + (if all_done s' \<and> jobs s' \<noteq> [] then 1 else 0)"
    using old nd_s' by simp
qed


lemma run_inv_step:
  assumes inv: "run_inv b s" and st: "step e s = Some s'"
  shows "run_inv b s'"
proof (cases e)
  case (Start i)
  with st have i: "i < length (jobs s)" and q: "jobs s ! i = Queued"
    and s': "s' = loop_head i 0 s"
    by (auto split: if_splits)
  have nd: "jobs s ! i \<noteq> Done" using q by simp
  show ?thesis
    by (rule run_inv_continue [OF inv i nd, where st = "AwaitDownload 0" and a = 0])
       (simp_all add: s')
next
  case (Downloaded i r)
  with st obtain a where i: "i < length (jobs s)" and ji: "jobs s ! i = AwaitDownload a"
    by (auto split: if_splits job_status.splits)
  have nd: "jobs s ! i \<noteq> Done" using ji by simp
  have a: "a < maxRetries"
    using run_invD(6) [OF inv] i ji by (blast intro: attempts_left_nth)
  show ?thesis
  proof (cases r)
    case (Inr u)
    with st Downloaded i ji have s': "s' = on_success i s" by simp
    show ?thesis
      by (rule run_inv_settle [OF inv i nd]) (simp_all add: s' on_success_summaries)
  next
    case (Inl err)
    with st Downloaded i ji have s': "s' = on_failure i a err s" by simp
    show ?thesis
    proof (cases "Suc a = maxRetries")
      case True
      show ?thesis
        by (rule run_inv_settle [OF inv i nd]) (simp_all add: s' on_failure_last_fields [OF True])
    next
      case False
      with a have a': "Suc a < maxRetries" by simp
      show ?thesis
        by (rule run_inv_continue [OF inv i nd, where st = "AwaitDelay (Suc a)" and a = "Suc a"])
           (simp_all add: s' on_failure_retry [OF False] a')
    qed
  qed
next
  case (Delayed i)
  with st obtain a where i: "i < length (jobs s)" and ji: "jobs s ! i = AwaitDelay a"
    by (auto split: if_splits job_status.splits)
  have nd: "jobs s ! i \<noteq> Done" using ji by simp
  have a: "a < maxRetries"
    using run_invD(6) [OF inv] i ji by (blast intro: attempts_left_nth)
  from st Delayed i ji have s': "s' = on_delay_over i a s" by simp
  show ?thesis
    by (rule run_inv_continue [OF inv i nd, where st = "AwaitDownload a" and a = a])
       (simp_all add: s' a)
qed

lemma run_inv_exec:
  "exec es s = Some s' \<Longrightarrow> run_inv b s \<Longrightarrow> run_inv b s'"
proof (induction es arbitrary: s)
  case Nil
  then show ?case by simp
next
  case (Cons e es)
  then show ?case
    by (auto split: option.splits intro: run_inv_step)
qed

lemma done_set_replicate [simp]: "done_set (replicate n Queued) = {}"
  by (auto simp: done_set_def)

lemma run_inv_start_run: "run_inv (summaries printed) (start_run tracks printed)"
proof (rule run_invI)
  show "attempts_left (jobs (start_run tracks printed))"
    by (simp add: start_run_def attempts_left_def list_all_iff)
  show "summaries (out (start_run tracks printed)) =
      summaries printed +
      (if all_done (start_run tracks printed) \<and> jobs (start_run tracks printed) \<noteq> [] then 1 else 0)"
    by (cases tracks) (simp_all add: start_run_def all_done_def)
qed (simp_all add: start_run_def)

lemma run_inv_reachable:
  "exec es (start_run tracks printed) = Some s \<Longrightarrow> run_inv (summaries printed) s"
  by (erule run_inv_exec) (rule run_inv_start_run)

lemma step_frame:
  assumes "step e s = Some s'"
  shows "rs_tracks s' = rs_tracks s \<and> length (jobs s') = length (jobs s) \<and>
         expectedCount s' = expectedCount s \<and>
         filter is_error_line (out s') = filter is_error_line (out s)"
proof (cases e)
  case (Start i)
  with assms show ?thesis by (auto split: if_splits)
next
  case (Downloaded i r)
  with assms obtain a where ji: "jobs s ! i = AwaitDownload a"
    by (auto split: if_splits job_status.splits)
  show ?thesis
  proof (cases r)
    case (Inr u)
    with assms Downloaded ji show ?thesis by (auto split: if_splits)
  next
    case (Inl err)
    with assms Downloaded ji have s': "s' = on_failure i a err s" by (auto split: if_splits)
    show ?thesis
    proof (cases "Suc a = maxRetries")
      case True
      then show ?thesis by (simp add: s' on_failure_last_fields)
    next
      case False
      then show ?thesis by (simp add: s' on_failure_retry)
    qed
  qed
next
  case (Delayed i)
  with assms show ?thesis by (auto split: if_splits job_status.splits)
qed

lemma exec_frame:
  "exec es s = Some s' \<Longrightarrow>
   rs_tracks s' = rs_tracks s \<and> length (jobs s') = length (jobs s) \<and>
   expectedCount s' = expectedCount s \<and>
   filter is_error_line (out s') = filter is_error_line (out s)"
proof (induction es arbitrary: s)
  case Nil
  then show ?case by simp
next
  case (Cons e es)
  from Cons.prems obtain s1 where e: "step e s = Some s1" and es: "exec es s1 = Some s'"
    by (auto split: option.splits)
  from step_frame [OF e] Cons.IH [OF es] show ?case by simp
qed

section \<open>Counting the outcomes\<close>

lemma ex_run: "exec ex_events (start_run ex_tracks []) \<noteq> None"
  by code_simp

lemma ex_run_done: "all_done (the (exec ex_events (start_run ex_tracks [])))"
  by code_simp

lemma ex_run_Some:
  "exec ex_events (start_run ex_tracks []) = Some (the (exec ex_events (start_run ex_tracks [])))"
  using ex_run by simp

lemma card_done_set_le: "card (done_set js) \<le> length js"
  using card_mono [OF _ done_set_below, of js] by simp

lemma distinct_count_list_1: "distinct xs \<Longrightarrow> x \<in> set xs \<Longrightarrow> count_list xs x = 1"
  by (induction xs) (auto simp: count_list_0_iff)

lemma reachable_counts:
  assumes "exec es (start_run tracks printed) = Some s"
  shows "expectedCount s = length tracks" "length (jobs s) = length tracks"
    "length (success s) + length (failures s) = card (done_set (jobs s))"
    "all_done s \<longleftrightarrow> length (success s) + length (failures s) = expectedCount s"
proof -
  have inv: "run_inv (summaries printed) s" using assms by (rule run_inv_reachable)
  have n: "expectedCount s = length (jobs s)" using inv by (rule run_invD)
  have "expectedCount s = expectedCount (start_run tracks printed)"
    using exec_frame [OF assms] by simp
  then show e: "expectedCount s = length tracks" by (simp add: start_run_def)
  with n show "length (jobs s) = length tracks" by simp
  show c: "length (success s) + length (failures s) = card (done_set (jobs s))"
    using inv by (rule run_inv_settled)
  show "all_done s \<longleftrightarrow> length (success s) + length (failures s) = expectedCount s"
    unfolding c n by (simp add: all_done_jobs card_done_set_full)
qed

text \<open>
  C1. In every state a run reaches, the number of tracks recorded in \<open>success\<close> plus the
  number recorded in \<open>failures\<close> is at most \<open>expectedCount\<close>, the number of tracks of
  the resource; it is \<open>expectedCount\<close> exactly when all jobs have returned.
\<close>

theorem settled_count_bounded:
  assumes "exec es (start_run tracks printed) = Some s"
  shows "expectedCount s = length tracks \<and>
         length (success s) + length (failures s) \<le> expectedCount s \<and>
         (all_done s \<longleftrightarrow> length (success s) + length (failures s) = expectedCount s)"
proof -
  note r = reachable_counts [OF assms]
  have "length (success s) + length (failures s) \<le> expectedCount s"
    unfolding r(3) r(1) r(2) [symmetric] by (rule card_done_set_le)
  with r(1) r(4) show ?thesis by simp
qed

theorem settled_count_bounded_witness:
  "expectedCount (the (exec ex_events (start_run ex_tracks []))) = 2 \<and>
   length (success (the (exec ex_events (start_run ex_tracks [])))) +
   length (failures (the (exec ex_events (start_run ex_tracks [])))) = 2"
  using settled_count_bounded [OF ex_run_Some] ex_run_done
  by (simp add: ex_tracks_def)

lemma deref_mem:
  assumes "distinct (rs_tracks s)" and "set xs \<subseteq> {..<length (rs_tracks s)}"
    and "i < length (rs_tracks s)"
  shows "rs_tracks s ! i \<in> set (deref s xs) \<longleftrightarrow> i \<in> set xs"
proof
  assume "rs_tracks s ! i \<in> set (deref s xs)"
  then obtain j where j: "j \<in> set xs" and eq: "rs_tracks s ! j = rs_tracks s ! i"
    by (auto simp: deref_def)
  from j assms(2) have "j < length (rs_tracks s)" by auto
  with eq assms(1,3) have "j = i" by (simp add: nth_eq_iff_index_eq)
  with j show "i \<in> set xs" by simp
next
  assume "i \<in> set xs"
  then show "rs_tracks s ! i \<in> set (deref s xs)" by (auto simp: deref_def)
qed

text \<open>
  C2. When a run is complete, every track object of the resource is in exactly one of
  \<open>success\<close> and \<open>failures\<close>, and is there once: each job has recorded exactly one
  outcome. When no two entries of the resource have the same content, the same holds
  of the content of the arrays.
\<close>

theorem exactly_one_outcome:
  assumes "exec es (start_run tracks printed) = Some s" and "all_done s"
    and "i < length tracks"
  shows "(i \<in> set (success s)) \<noteq> (i \<in> set (failures s)) \<and>
         count_list (success s @ failures s) i = 1 \<and>
         (distinct tracks \<longrightarrow>
            (tracks ! i \<in> set (deref s (success s))) \<noteq>
            (tracks ! i \<in> set (deref s (failures s))))"
proof -
  have inv: "run_inv (summaries printed) s" using assms(1) by (rule run_inv_reachable)
  have n: "length (jobs s) = length tracks" using assms(1) by (rule reachable_counts)
  have "rs_tracks s = rs_tracks (start_run tracks printed)"
    using exec_frame [OF assms(1)] by simp
  then have tr: "rs_tracks s = tracks" by (simp add: start_run_def)
  have all: "set (success s) \<union> set (failures s) = {..<length (jobs s)}"
    using run_invD(5) [OF inv] assms(2) by (simp add: all_done_jobs)
  with assms(3) n have mem: "i \<in> set (success s @ failures s)" by auto
  have d: "distinct (success s @ failures s)" using inv by (rule run_invD)
  from d have "set (success s) \<inter> set (failures s) = {}" by simp
  with mem have one: "(i \<in> set (success s)) \<noteq> (i \<in> set (failures s))" by auto
  have cnt: "count_list (success s @ failures s) i = 1"
    using d mem by (rule distinct_count_list_1)
  have content: "(tracks ! i \<in> set (deref s (success s))) \<noteq>
            (tracks ! i \<in> set (deref s (failures s)))" if dt: "distinct tracks"
  proof -
    from all n tr have sub: "set (success s) \<subseteq> {..<length (rs_tracks s)}"
      "set (failures s) \<subseteq> {..<length (rs_tracks s)}" by auto
    from dt tr have dr: "distinct (rs_tracks s)" by simp
    from assms(3) tr have ir: "i < length (rs_tracks s)" by simp
    from deref_mem [OF dr sub(1) ir] deref_mem [OF dr sub(2) ir] one
    show ?thesis unfolding tr by simp
  qed
  from one cnt content show ?thesis by blast
qed

theorem exactly_one_outcome_witness:
  "0 \<in> set (success (the (exec ex_events (start_run ex_tracks [])))) \<and>
   0 \<notin> set (failures (the (exec ex_events (start_run ex_tracks [])))) \<and>
   1 \<in> set (failures (the (exec ex_events (start_run ex_tracks [])))) \<and>
   1 \<notin> set (success (the (exec ex_events (start_run ex_tracks [])))) \<and>
   ex_tracks ! 1 \<notin> set (deref (the (exec ex_events (start_run ex_tracks [])))
                            (success (the (exec ex_events (start_run ex_tracks [])))))"
proof -
  let ?s = "the (exec ex_events (start_run ex_tracks []))"
  have s0: "0 \<in> set (success ?s)" by code_simp
  have f1: "1 \<in> set (failures ?s)" by code_simp
  have c1: "ex_tracks ! 1 \<in> set (deref ?s (failures ?s))" by code_simp
  have l0: "0 < length ex_tracks" and l1: "1 < length ex_tracks"
    by (simp_all add: ex_tracks_def)
  have dt: "distinct ex_tracks" by (simp add: ex_tracks_def)
  from exactly_one_outcome [OF ex_run_Some ex_run_done l0] s0
  have "0 \<notin> set (failures ?s)" by simp
  moreover from exactly_one_outcome [OF ex_run_Some ex_run_done l1] f1 c1 dt
  have "1 \<notin> set (success ?s)" "ex_tracks ! 1 \<notin> set (deref ?s (success ?s))" by simp_all
  ultimately show ?thesis using s0 f1 by simp
qed

text \<open>
  Two entries with the same content are two track objects. Here the first is fetched
  and the second fails five times: each object is in one array, and by content the
  track is in both.
\<close>

lemma same_track_twice:
  "success (the (exec ex_twice_events (start_run ex_twice []))) = [0] \<and>
   failures (the (exec ex_twice_events (start_run ex_twice []))) = [1] \<and>
   deref (the (exec ex_twice_events (start_run ex_twice [])))
     (success (the (exec ex_twice_events (start_run ex_twice [])))) = [ex_track] \<and>
   deref (the (exec ex_twice_events (start_run ex_twice [])))
     (failures (the (exec ex_twice_events (start_run ex_twice [])))) = [ex_track]"
  by code_simp




section \<open>The retry loop\<close>

lemma attempts_snoc:
  "failed_attempts i (es @ [e]) = failed_attempts i es + (if is_failure_of i e then 1 else 0)"
  "successful_attempts i (es @ [e]) = successful_attempts i es + (if is_success_of i e then 1 else 0)"
  by (simp_all add: failed_attempts_def successful_attempts_def)

text \<open>An event of another job leaves the place of job \<open>i\<close> and the arrays' content.\<close>

lemma step_effect:
  assumes "step e s = Some s'"
  shows "\<exists>k st. k < length (jobs s) \<and> jobs s' = (jobs s)[k := st] \<and>
           (e = Start k \<or> (\<exists>r. e = Downloaded k r) \<or> e = Delayed k) \<and>
           set (success s) \<subseteq> set (success s') \<and> set (failures s) \<subseteq> set (failures s')"
proof (cases e)
  case (Start i)
  with assms show ?thesis by (auto split: if_splits)
next
  case (Downloaded i r)
  with assms obtain a where i: "i < length (jobs s)" and ji: "jobs s ! i = AwaitDownload a"
    by (auto split: if_splits job_status.splits)
  show ?thesis
  proof (cases r)
    case (Inr u)
    with assms Downloaded ji i have "s' = on_success i s" by simp
    with i Downloaded show ?thesis by auto
  next
    case (Inl err)
    with assms Downloaded ji i have s': "s' = on_failure i a err s" by simp
    show ?thesis
    proof (cases "Suc a = maxRetries")
      case True
      with i Downloaded show ?thesis
        by (auto simp: s' on_failure_last_fields)
    next
      case False
      with i Downloaded show ?thesis
        by (auto simp: s' on_failure_retry)
    qed
  qed
next
  case (Delayed i)
  with assms show ?thesis by (auto split: if_splits job_status.splits)
qed

lemma job_inv_other:
  assumes st: "step e s = Some s'" and inv: "job_inv i es s"
    and other: "e \<noteq> Start i" "\<forall>r. e \<noteq> Downloaded i r" "e \<noteq> Delayed i"
  shows "job_inv i (es @ [e]) s'"
proof -
  from step_effect [OF st] obtain k st where k: "jobs s' = (jobs s)[k := st]"
    and e: "e = Start k \<or> (\<exists>r. e = Downloaded k r) \<or> e = Delayed k"
    and sub: "set (success s) \<subseteq> set (success s')" "set (failures s) \<subseteq> set (failures s')"
    by blast
  from e other have ki: "k \<noteq> i" by auto
  then have j: "jobs s' ! i = jobs s ! i" by (simp add: k)
  from e ki have nf: "\<not> is_failure_of i e" and ns: "\<not> is_success_of i e"
    by (auto elim!: is_failure_of.elims is_success_of.elims)
  show ?thesis
    using inv sub unfolding job_inv_def j attempts_snoc
    by (auto simp: nf ns split: job_status.splits)
qed


lemma job_inv_self:
  assumes st: "step e s = Some s'" and inv: "job_inv i es s" and al: "attempts_left (jobs s)"
    and self: "e = Start i \<or> (\<exists>r. e = Downloaded i r) \<or> e = Delayed i"
  shows "job_inv i (es @ [e]) s'"
proof -
  from self show ?thesis
  proof (elim disjE exE)
    assume e: "e = Start i"
    with st have i: "i < length (jobs s)" and q: "jobs s ! i = Queued"
      and s': "s' = loop_head i 0 s"
      by (auto split: if_splits)
    have j: "jobs s' ! i = AwaitDownload 0" using i by (simp add: s')
    show ?thesis
      using inv unfolding job_inv_def j q attempts_snoc by (simp add: e)
  next
    fix r assume e: "e = Downloaded i r"
    with st obtain a where i: "i < length (jobs s)" and ji: "jobs s ! i = AwaitDownload a"
      by (auto split: if_splits job_status.splits)
    have a: "a < maxRetries" using al i ji by (blast intro: attempts_left_nth)
    from inv have c: "failed_attempts i es = a" "successful_attempts i es = 0"
      unfolding job_inv_def ji by simp_all
    show ?thesis
    proof (cases r)
      case (Inr u)
      with st e ji i have s': "s' = on_success i s" by simp
      have j: "jobs s' ! i = Done" using i by (simp add: s')
      show ?thesis
        unfolding job_inv_def j attempts_snoc using a by (simp add: e Inr c s')
    next
      case (Inl err)
      with st e ji i have s': "s' = on_failure i a err s" by simp
      show ?thesis
      proof (cases "Suc a = maxRetries")
        case True
        have j: "jobs s' ! i = Done" using i by (simp add: s' on_failure_last_fields [OF True])
        show ?thesis
          unfolding job_inv_def j attempts_snoc using True
          by (simp add: e Inl c s' on_failure_last_fields [OF True])
      next
        case False
        have j: "jobs s' ! i = AwaitDelay (Suc a)"
          using i by (simp add: s' on_failure_retry [OF False])
        show ?thesis
          unfolding job_inv_def j attempts_snoc by (simp add: e Inl c)
      qed
    qed
  next
    assume e: "e = Delayed i"
    with st obtain a where i: "i < length (jobs s)" and ji: "jobs s ! i = AwaitDelay a"
      by (auto split: if_splits job_status.splits)
    have a: "a < maxRetries" using al i ji by (blast intro: attempts_left_nth)
    from st e ji i have s': "s' = on_delay_over i a s" by simp
    have j: "jobs s' ! i = AwaitDownload a" using i a by (simp add: s')
    show ?thesis
      using inv unfolding job_inv_def j ji attempts_snoc by (simp add: e)
  qed
qed

lemma job_inv_step:
  assumes "step e s = Some s'" and "job_inv i es s" and "attempts_left (jobs s)"
  shows "job_inv i (es @ [e]) s'"
proof (cases "e = Start i \<or> (\<exists>r. e = Downloaded i r) \<or> e = Delayed i")
  case True
  with assms show ?thesis by (rule job_inv_self)
next
  case False
  with assms(1,2) show ?thesis by (intro job_inv_other) auto
qed

lemma job_inv_exec:
  "exec es s = Some s' \<Longrightarrow> run_inv b s \<Longrightarrow> job_inv i pre s \<Longrightarrow> job_inv i (pre @ es) s'"
proof (induction es arbitrary: s pre)
  case Nil
  then show ?case by simp
next
  case (Cons e es)
  from Cons.prems(1) obtain s1 where e: "step e s = Some s1" and es: "exec es s1 = Some s'"
    by (auto split: option.splits)
  have inv1: "run_inv b s1" using Cons.prems(2) e by (rule run_inv_step)
  have j1: "job_inv i (pre @ [e]) s1"
    using e Cons.prems(3) run_invD(6) [OF Cons.prems(2)] by (rule job_inv_step)
  from Cons.IH [OF es inv1 j1] show ?case by simp
qed

lemma job_inv_reachable:
  assumes "exec es (start_run tracks printed) = Some s" and "i < length tracks"
  shows "job_inv i es s"
proof -
  have "job_inv i [] (start_run tracks printed)"
    using assms(2)
    by (simp add: job_inv_def start_run_def failed_attempts_def successful_attempts_def)
  from job_inv_exec [OF assms(1) run_inv_start_run this] show ?thesis by simp
qed

text \<open>
  C4. In every state a run reaches, a job has called \<open>downloadTrack\<close> at most five
  times; after a fifth failure the job has returned and its track is in \<open>failures\<close>
  and not in \<open>success\<close>; after a success the job has returned with fewer than five
  failures, and its track is in \<open>success\<close>, once, and not in \<open>failures\<close>; and no
  line of an error handler has been printed, whatever errors the attempts raised.
\<close>

theorem retries_bounded:
  assumes "exec es (start_run tracks printed) = Some s" and "i < length tracks"
  shows "maxRetries = 5 \<and> attempts_made i es s \<le> maxRetries \<and>
    (failed_attempts i es = maxRetries \<longrightarrow>
       jobs s ! i = Done \<and> i \<in> set (failures s) \<and> i \<notin> set (success s)) \<and>
    (0 < successful_attempts i es \<longrightarrow>
       jobs s ! i = Done \<and> successful_attempts i es = 1 \<and> failed_attempts i es < maxRetries \<and>
       i \<in> set (success s) \<and> i \<notin> set (failures s) \<and>
       count_list (success s @ failures s) i = 1) \<and>
    filter is_error_line (out s) = filter is_error_line printed"
proof -
  have inv: "run_inv (summaries printed) s" using assms(1) by (rule run_inv_reachable)
  have ji: "job_inv i es s" using assms by (rule job_inv_reachable)
  have d: "distinct (success s @ failures s)" using inv by (rule run_invD)
  then have disj: "set (success s) \<inter> set (failures s) = {}" by simp
  have n: "length (jobs s) = length tracks" using assms(1) by (rule reachable_counts)
  have al: "attempts_left (jobs s)" using inv by (rule run_invD)
  have er: "filter is_error_line (out s) = filter is_error_line printed"
    using exec_frame [OF assms(1)] by (simp add: start_run_def)
  have m: "maxRetries = 5" by (simp add: maxRetries_def)
  show ?thesis
  proof (cases "jobs s ! i")
    case Queued
    with ji m er show ?thesis by (simp add: job_inv_def attempts_made_def)
  next
    case (AwaitDownload a)
    have "a < maxRetries" using al assms(2) n AwaitDownload by (auto intro: attempts_left_nth)
    with ji m er AwaitDownload show ?thesis by (simp add: job_inv_def attempts_made_def)
  next
    case (AwaitDelay a)
    have "a < maxRetries" using al assms(2) n AwaitDelay by (auto intro: attempts_left_nth)
    with ji m er AwaitDelay show ?thesis by (simp add: job_inv_def attempts_made_def)
  next
    case Done
    with ji have
      "successful_attempts i es = 1 \<and> failed_attempts i es < maxRetries \<and> i \<in> set (success s) \<or>
       successful_attempts i es = 0 \<and> failed_attempts i es = maxRetries \<and> i \<in> set (failures s)"
      by (simp add: job_inv_def)
    then show ?thesis
    proof (elim disjE conjE)
      assume c: "successful_attempts i es = 1" "failed_attempts i es < maxRetries"
        and mem: "i \<in> set (success s)"
      with disj have nf: "i \<notin> set (failures s)" by auto
      have "count_list (success s @ failures s) i = 1"
        using d mem by (intro distinct_count_list_1) auto
      with c mem nf Done er m show ?thesis by (simp add: attempts_made_def)
    next
      assume c: "successful_attempts i es = 0" "failed_attempts i es = maxRetries"
        and mem: "i \<in> set (failures s)"
      with disj have ns: "i \<notin> set (success s)" by auto
      with c mem Done er m show ?thesis by (simp add: attempts_made_def)
    qed
  qed
qed

theorem retries_bounded_witness:
  "failed_attempts 1 ex_events = 5 \<and> successful_attempts 0 ex_events = 1 \<and>
   failed_attempts 0 ex_events = 1 \<and>
   jobs (the (exec ex_events (start_run ex_tracks []))) = [Done, Done] \<and>
   1 \<notin> set (success (the (exec ex_events (start_run ex_tracks [])))) \<and>
   0 \<notin> set (failures (the (exec ex_events (start_run ex_tracks [])))) \<and>
   filter is_error_line (out (the (exec ex_events (start_run ex_tracks [])))) = []"
proof -
  let ?s = "the (exec ex_events (start_run ex_tracks []))"
  have l0: "0 < length ex_tracks" and l1: "1 < length ex_tracks"
    by (simp_all add: ex_tracks_def)
  have f1: "failed_attempts 1 ex_events = maxRetries" by code_simp
  have s0: "0 < successful_attempts 0 ex_events" by code_simp
  have c: "failed_attempts 1 ex_events = 5" "successful_attempts 0 ex_events = 1"
    "failed_attempts 0 ex_events = 1" "jobs ?s = [Done, Done]"
    by code_simp+
  from retries_bounded [OF ex_run_Some l1] f1 have "1 \<notin> set (success ?s)" by simp
  moreover from retries_bounded [OF ex_run_Some l0] s0
  have "0 \<notin> set (failures ?s)" "filter is_error_line (out ?s) = []" by simp_all
  ultimately show ?thesis using c by simp
qed

section \<open>A run comes to its end\<close>

text \<open>A run that is not complete can go on: some event is possible.\<close>

lemma run_can_go_on:
  assumes "\<not> all_done s"
  shows "\<exists>e s'. step e s = Some s'"
proof (cases "\<exists>i < length (jobs s). is_running (jobs s ! i)")
  case True
  then obtain i where i: "i < length (jobs s)" and r: "is_running (jobs s ! i)" by blast
  show ?thesis
  proof (cases "jobs s ! i")
    case (AwaitDownload a)
    with i have "step (Downloaded i (Inr ())) s = Some (on_success i s)" by simp
    then show ?thesis by blast
  next
    case (AwaitDelay a)
    with i have "step (Delayed i) s = Some (on_delay_over i a s)" by simp
    then show ?thesis by blast
  qed (use r in \<open>simp_all add: is_running_def\<close>)
next
  case False
  then have none: "filter is_running (jobs s) = []"
    by (auto simp: filter_empty_conv in_set_conv_nth)
  from assms obtain k where k: "k < length (jobs s)" "jobs s ! k \<noteq> Done"
    by (auto simp: all_done_def list_all_length)
  with False have "jobs s ! k = Queued"
    by (cases "jobs s ! k") (auto simp: is_running_def)
  with k(1) have ex: "\<exists>i. i < length (jobs s) \<and> jobs s ! i = Queued" by blast
  define i where "i = (LEAST i. i < length (jobs s) \<and> jobs s ! i = Queued)"
  have i: "i < length (jobs s) \<and> jobs s ! i = Queued"
    unfolding i_def using ex by (rule LeastI_ex)
  have least: "\<And>j. j < i \<Longrightarrow> \<not> (j < length (jobs s) \<and> jobs s ! j = Queued)"
    unfolding i_def by (rule not_less_Least)
  have "Queued \<notin> set (take i (jobs s))"
  proof
    assume "Queued \<in> set (take i (jobs s))"
    then obtain j where "j < length (take i (jobs s))" "take i (jobs s) ! j = Queued"
      by (auto simp: in_set_conv_nth)
    then have "j < i" "j < length (jobs s)" "jobs s ! j = Queued" by simp_all
    with least show False by blast
  qed
  with i none have "step (Start i) s = Some (loop_head i 0 s)"
    by (simp add: concurrency_def)
  then show ?thesis by blast
qed

lemma events_left_update:
  assumes "i < length js" and "events_left st < events_left (js ! i)"
  shows "sum_list (map events_left (js[i := st])) < sum_list (map events_left js)"
proof -
  have le: "events_left (js ! i) \<le> sum_list (map events_left js)"
    using assms(1) by (intro member_le_sum_list) simp_all
  have "sum_list (map events_left (js[i := st])) =
        sum_list (map events_left js) + events_left st - events_left (js ! i)"
    using assms(1) by (simp add: map_update sum_list_update)
  with le assms(2) show ?thesis by linarith
qed

text \<open>Every event uses up one of the events its job has left.\<close>

lemma step_events_left:
  assumes st: "step e s = Some s'" and al: "attempts_left (jobs s)"
  shows "run_events_left s' < run_events_left s"
proof (cases e)
  case (Start i)
  with st have i: "i < length (jobs s)" and q: "jobs s ! i = Queued"
    and s': "s' = loop_head i 0 s"
    by (auto split: if_splits)
  show ?thesis
    unfolding run_events_left_def s'
    using events_left_update [OF i, of "AwaitDownload 0"] q by simp
next
  case (Downloaded i r)
  with st obtain a where i: "i < length (jobs s)" and ji: "jobs s ! i = AwaitDownload a"
    by (auto split: if_splits job_status.splits)
  have a: "a < maxRetries" using al i ji by (blast intro: attempts_left_nth)
  then have a5: "a < 5" by (simp add: maxRetries_def)
  show ?thesis
  proof (cases r)
    case (Inr u)
    with st Downloaded ji i have s': "s' = on_success i s" by simp
    show ?thesis
      unfolding run_events_left_def s'
      using events_left_update [OF i, of Done] ji a5 by simp
  next
    case (Inl err)
    with st Downloaded ji i have s': "s' = on_failure i a err s" by simp
    show ?thesis
    proof (cases "Suc a = maxRetries")
      case True
      show ?thesis
        unfolding run_events_left_def s'
        using events_left_update [OF i, of Done] ji a5
        by (simp add: on_failure_last_fields [OF True])
    next
      case False
      show ?thesis
        unfolding run_events_left_def s'
        using events_left_update [OF i, of "AwaitDelay (Suc a)"] ji a5
        by (simp add: on_failure_retry [OF False])
    qed
  qed
next
  case (Delayed i)
  with st obtain a where i: "i < length (jobs s)" and ji: "jobs s ! i = AwaitDelay a"
    by (auto split: if_splits job_status.splits)
  have a: "a < maxRetries" using al i ji by (blast intro: attempts_left_nth)
  then have a5: "a < 5" by (simp add: maxRetries_def)
  from st Delayed ji i have s': "s' = on_delay_over i a s" by simp
  show ?thesis
    unfolding run_events_left_def s'
    using events_left_update [OF i, of "AwaitDownload a"] ji a a5 by simp
qed

lemma exec_events_left:
  "exec es s = Some s' \<Longrightarrow> run_inv b s \<Longrightarrow> length es + run_events_left s' \<le> run_events_left s"
proof (induction es arbitrary: s)
  case Nil
  then show ?case by simp
next
  case (Cons e es)
  from Cons.prems(1) obtain s1 where e: "step e s = Some s1" and es: "exec es s1 = Some s'"
    by (auto split: option.splits)
  have inv1: "run_inv b s1" using Cons.prems(2) e by (rule run_inv_step)
  have "run_events_left s1 < run_events_left s"
    using e run_invD(6) [OF Cons.prems(2)] by (rule step_events_left)
  with Cons.IH [OF es inv1] show ?case by simp
qed

text \<open>A run over \<open>n\<close> tracks has at most \<open>10 * n\<close> events.\<close>

lemma run_length_bounded:
  assumes "exec es (start_run tracks printed) = Some s"
  shows "length es \<le> 10 * length tracks"
proof -
  have "run_events_left (start_run tracks printed) = 10 * length tracks"
    by (simp add: run_events_left_def start_run_def sum_list_replicate)
  with exec_events_left [OF assms run_inv_start_run] show ?thesis by simp
qed

section \<open>Acquiring the access token\<close>




section \<open>Parsing the URL\<close>

lemma starts_with_iff: "starts_with s sub \<longleftrightarrow> (\<exists>b. s = sub @ b)"
  by (induction s sub rule: starts_with.induct) auto

lemma js_includes_iff: "js_includes s sub \<longleftrightarrow> (\<exists>a b. s = a @ sub @ b)"
proof (induction s)
  case Nil
  then show ?case by auto
next
  case (Cons x xs)
  show ?case
  proof
    assume "js_includes (x # xs) sub"
    then consider "starts_with (x # xs) sub" | "js_includes xs sub" by auto
    then show "\<exists>a b. x # xs = a @ sub @ b"
    proof cases
      case 1
      then obtain b where "x # xs = sub @ b" by (auto simp: starts_with_iff)
      then have "x # xs = [] @ sub @ b" by simp
      then show ?thesis by blast
    next
      case 2
      with Cons.IH obtain a b where "xs = a @ sub @ b" by auto
      then have "x # xs = (x # a) @ sub @ b" by simp
      then show ?thesis by blast
    qed
  next
    assume "\<exists>a b. x # xs = a @ sub @ b"
    then obtain a b where ab: "x # xs = a @ sub @ b" by auto
    show "js_includes (x # xs) sub"
    proof (cases a)
      case Nil
      with ab have "starts_with (x # xs) sub" by (auto simp: starts_with_iff)
      then show ?thesis by simp
    next
      case (Cons y ys)
      with ab have "xs = ys @ sub @ b" by simp
      with Cons.IH have "js_includes xs sub" by blast
      then show ?thesis by simp
    qed
  qed
qed

lemma split_not_Nil [simp]: "split c s \<noteq> []"
  by (induction s) (auto split: list.splits)

lemma hd_split: "hd (split c s) = takeWhile (\<lambda>x. x \<noteq> c) s"
proof (induction s)
  case Nil
  then show ?case by simp
next
  case (Cons x xs)
  then show ?case by (cases "split c xs") auto
qed

lemma tl_split:
  "tl (split c s) = (case dropWhile (\<lambda>x. x \<noteq> c) s of [] \<Rightarrow> [] | x # r \<Rightarrow> split c r)"
proof (induction s)
  case Nil
  then show ?case by simp
next
  case (Cons x xs)
  then show ?case by (cases "split c xs") auto
qed

text \<open>The first two pieces of a string cut at \<open>c\<close>, when there are two.\<close>

lemma split_two:
  "(at_index (split c s) 0 = Some a \<and> at_index (split c s) 1 = Some b) \<longleftrightarrow>
   (c \<notin> set a \<and> c \<notin> set b \<and> (\<exists>r. s = a @ c # b @ r \<and> (r = [] \<or> hd r = c)))"
proof
  assume l: "at_index (split c s) 0 = Some a \<and> at_index (split c s) 1 = Some b"
  let ?d = "dropWhile (\<lambda>x. x \<noteq> c) s"
  from l have a: "a = takeWhile (\<lambda>x. x \<noteq> c) s"
    by (cases "split c s") (auto simp: at_index_def hd_split [symmetric] split: if_splits)
  from l have t: "tl (split c s) \<noteq> []" "hd (tl (split c s)) = b"
    by (cases "split c s"; cases "tl (split c s)"; auto simp: at_index_def split: if_splits)+
  have dn: "?d \<noteq> []"
  proof
    assume "?d = []"
    then have "tl (split c s) = []" by (simp only: tl_split list.case)
    with t(1) show False by simp
  qed
  then have "hd ?d = c" using hd_dropWhile [of "\<lambda>x. x \<noteq> c" s] by auto
  with dn obtain r where d: "?d = c # r" by (cases ?d) auto
  with t(2) have b: "b = takeWhile (\<lambda>x. x \<noteq> c) r"
    by (simp add: tl_split hd_split)
  let ?r' = "dropWhile (\<lambda>x. x \<noteq> c) r"
  have "s = a @ ?d" by (simp add: a)
  also have "\<dots> = a @ c # b @ ?r'" by (simp add: d b)
  finally have s: "s = a @ c # b @ ?r'" .
  have r': "?r' = [] \<or> hd ?r' = c"
    using hd_dropWhile [of "\<lambda>x. x \<noteq> c" r] by auto
  have "c \<notin> set a" "c \<notin> set b"
    unfolding a b by (auto dest: set_takeWhileD)
  with s r' show "c \<notin> set a \<and> c \<notin> set b \<and> (\<exists>r. s = a @ c # b @ r \<and> (r = [] \<or> hd r = c))"
    by blast
next
  assume r: "c \<notin> set a \<and> c \<notin> set b \<and> (\<exists>r. s = a @ c # b @ r \<and> (r = [] \<or> hd r = c))"
  then obtain r where s: "s = a @ c # b @ r" and r0: "r = [] \<or> hd r = c"
    and na: "c \<notin> set a" and nb: "c \<notin> set b" by blast
  have na': "\<forall>x \<in> set a. x \<noteq> c" using na by blast
  have ta: "takeWhile (\<lambda>x. x \<noteq> c) s = a"
    unfolding s using na' by (simp add: takeWhile_tail)
  have da: "dropWhile (\<lambda>x. x \<noteq> c) s = c # b @ r"
    unfolding s using na' by (simp add: dropWhile_append3)
  have tb: "takeWhile (\<lambda>x. x \<noteq> c) (b @ r) = b"
  proof (cases r)
    case Nil
    with nb show ?thesis by auto
  next
    case (Cons x xs)
    with r0 have "x = c" by simp
    moreover have "\<forall>x \<in> set b. x \<noteq> c" using nb by blast
    ultimately show ?thesis using Cons by (simp add: takeWhile_tail)
  qed
  have h: "hd (split c s) = a" by (simp add: hd_split ta)
  have t: "tl (split c s) = split c (b @ r)" by (simp add: tl_split da)
  have h2: "hd (split c (b @ r)) = b" by (simp add: hd_split tb)
  obtain x xs where sp: "split c s = x # xs" by (cases "split c s") auto
  obtain y ys where sp2: "split c (b @ r) = y # ys" by (cases "split c (b @ r)") auto
  from h t h2 sp sp2 show "at_index (split c s) 0 = Some a \<and> at_index (split c s) 1 = Some b"
    by (auto simp: at_index_def)
qed


lemma take_prefix_iff: "take (length pre) p = pre \<longleftrightarrow> (\<exists>r. p = pre @ r)"
proof
  assume "take (length pre) p = pre"
  then have "p = pre @ drop (length pre) p"
    using append_take_drop_id [of "length pre" p] by simp
  then show "\<exists>r. p = pre @ r" ..
qed auto

lemma path_matches_iff:
  "path_matches p t i \<longleftrightarrow>
   (i \<noteq> [] \<and> CHR ''/'' \<notin> set i \<and>
    (\<exists>r. p = ''/'' @ type_name t @ ''/'' @ i @ r \<and> (r = [] \<or> hd r = CHR ''/'')))"
proof -
  let ?pre = "''/'' @ type_name t @ ''/'' @ i"
  have "(take (length ?pre) p = ?pre \<and>
         (drop (length ?pre) p = [] \<or> hd (drop (length ?pre) p) = CHR ''/'')) \<longleftrightarrow>
        (\<exists>r. p = ?pre @ r \<and> (r = [] \<or> hd r = CHR ''/''))"
  proof
    assume l: "take (length ?pre) p = ?pre \<and>
         (drop (length ?pre) p = [] \<or> hd (drop (length ?pre) p) = CHR ''/'')"
    then obtain r where r: "p = ?pre @ r" using take_prefix_iff [of ?pre p] by blast
    then have "drop (length ?pre) p = r" by simp
    with l r show "\<exists>r. p = ?pre @ r \<and> (r = [] \<or> hd r = CHR ''/'')" by metis
  next
    assume "\<exists>r. p = ?pre @ r \<and> (r = [] \<or> hd r = CHR ''/'')"
    then obtain r where r: "p = ?pre @ r" and h: "r = [] \<or> hd r = CHR ''/''" by blast
    from r have "take (length ?pre) p = ?pre" "drop (length ?pre) p = r" by simp_all
    with h show "take (length ?pre) p = ?pre \<and>
         (drop (length ?pre) p = [] \<or> hd (drop (length ?pre) p) = CHR ''/'')" by simp
  qed
  then show ?thesis unfolding path_matches_def Let_def by simp
qed

lemma type_name_no_slash: "CHR ''/'' \<notin> set (type_name t)"
  by (cases t) simp_all

lemma type_name_inject: "type_name t = type_name t' \<longleftrightarrow> t = t'"
  by (cases t; cases t') simp_all

lemma at_index_Cons: "at_index (x # xs) (Suc k) = at_index xs k"
  by (simp add: at_index_def)

text \<open>The second and third piece of a path are a type and an id exactly if the path
  has the pattern.\<close>

lemma pieces_match:
  assumes "p = [] \<or> hd p = CHR ''/''"
  shows "(at_index (split (CHR ''/'') p) 1 = Some (type_name t) \<and>
          at_index (split (CHR ''/'') p) 2 = Some i \<and> i \<noteq> []) \<longleftrightarrow> path_matches p t i"
proof (cases p)
  case Nil
  then show ?thesis by (simp add: path_matches_iff at_index_def)
next
  case (Cons x rest)
  with assms have p: "p = CHR ''/'' # rest" by simp
  have two: "2 = Suc 1" by simp
  have "(at_index (split (CHR ''/'') p) 1 = Some (type_name t) \<and>
         at_index (split (CHR ''/'') p) 2 = Some i) \<longleftrightarrow>
        (at_index (split (CHR ''/'') rest) 0 = Some (type_name t) \<and>
         at_index (split (CHR ''/'') rest) 1 = Some i)"
    unfolding p two by (simp add: at_index_Cons del: One_nat_def) (simp add: at_index_def)
  also have "\<dots> \<longleftrightarrow> (CHR ''/'' \<notin> set i \<and>
      (\<exists>r. rest = type_name t @ CHR ''/'' # i @ r \<and> (r = [] \<or> hd r = CHR ''/'')))"
    using split_two [of "CHR ''/''" rest "type_name t" i] type_name_no_slash [of t] by blast
  finally have eq: "(at_index (split (CHR ''/'') p) 1 = Some (type_name t) \<and>
         at_index (split (CHR ''/'') p) 2 = Some i) \<longleftrightarrow>
        (CHR ''/'' \<notin> set i \<and>
      (\<exists>r. rest = type_name t @ CHR ''/'' # i @ r \<and> (r = [] \<or> hd r = CHR ''/'')))" .
  have pm: "path_matches p t i \<longleftrightarrow>
      (i \<noteq> [] \<and> CHR ''/'' \<notin> set i \<and>
       (\<exists>r. rest = type_name t @ CHR ''/'' # i @ r \<and> (r = [] \<or> hd r = CHR ''/'')))"
    unfolding path_matches_iff p by simp
  show ?thesis unfolding pm using eq by blast
qed

lemma parse_ok_iff:
  "parseSpotifyUrl URL s = Inr (t, i) \<longleftrightarrow>
   (\<exists>u. URL s = Inr u \<and> js_includes (url_hostname u) ''spotify.com'' \<and>
        at_index (split (CHR ''/'') (url_pathname u)) 1 = Some (type_name t) \<and>
        at_index (split (CHR ''/'') (url_pathname u)) 2 = Some i \<and> i \<noteq> [])"
proof (cases "URL s")
  case (Inl e)
  then show ?thesis by (simp add: parseSpotifyUrl_def)
next
  case (Inr u)
  show ?thesis
  proof (cases "js_includes (url_hostname u) ''spotify.com''")
    case False
    with Inr show ?thesis by (simp add: parseSpotifyUrl_def)
  next
    case True
    show ?thesis
    proof (cases "at_index (split (CHR ''/'') (url_pathname u)) 2")
      case None
      with Inr True show ?thesis by (simp add: parseSpotifyUrl_def Let_def)
    next
      case (Some j)
      with Inr True show ?thesis
        by (cases t) (auto simp: parseSpotifyUrl_def Let_def)
    qed
  qed
qed

lemma handler_parse_error:
  "parseSpotifyUrl (URL_new E) s = Inl e \<Longrightarrow>
   handler E s customPath w =
     Some (None, w\<lparr>console := console w @ [ConsoleError (''Error: '' @ message e)]\<rparr>)"
  by (simp add: handler_def handler_try_def)

text \<open>
  C6. Parsing succeeds with a type and an id exactly if the string is a URL whose host
  name is recognized (it contains \<open>spotify.com\<close>) and whose path has the pattern
  \<open>/{album|playlist}/{id}\<close> with a non-empty id (further segments may follow). In every
  other case parsing raises an error, and the handler ends having printed that error
  and nothing else: no request is made, no directory made, no run started. The path of
  a URL object is empty or starts with \<open>/\<close>.
\<close>

theorem parseSpotifyUrl_succeeds_iff:
  assumes "\<forall>u. URL_new E s = Inr u \<longrightarrow> url_pathname u = [] \<or> hd (url_pathname u) = CHR ''/''"
  shows "(parseSpotifyUrl (URL_new E) s = Inr (t, i) \<longleftrightarrow>
            (\<exists>u. URL_new E s = Inr u \<and> recognized_host (url_hostname u) \<and>
                 path_matches (url_pathname u) t i)) \<and>
         ((\<forall>t' i'. parseSpotifyUrl (URL_new E) s \<noteq> Inr (t', i')) \<longrightarrow>
            (\<exists>e. parseSpotifyUrl (URL_new E) s = Inl e \<and>
                 handler E s customPath w =
                   Some (None, w\<lparr>console := console w @ [ConsoleError (''Error: '' @ message e)]\<rparr>)))"
proof
  show "parseSpotifyUrl (URL_new E) s = Inr (t, i) \<longleftrightarrow>
            (\<exists>u. URL_new E s = Inr u \<and> recognized_host (url_hostname u) \<and>
                 path_matches (url_pathname u) t i)"
  proof
    assume "parseSpotifyUrl (URL_new E) s = Inr (t, i)"
    then obtain u where u: "URL_new E s = Inr u"
      and h: "js_includes (url_hostname u) ''spotify.com''"
      and pc: "at_index (split (CHR ''/'') (url_pathname u)) 1 = Some (type_name t) \<and>
          at_index (split (CHR ''/'') (url_pathname u)) 2 = Some i \<and> i \<noteq> []"
      unfolding parse_ok_iff by blast
    from assms u have wf: "url_pathname u = [] \<or> hd (url_pathname u) = CHR ''/''" by blast
    from pc have "path_matches (url_pathname u) t i"
      unfolding pieces_match [OF wf] .
    moreover from h have "recognized_host (url_hostname u)"
      unfolding recognized_host_def js_includes_iff .
    ultimately show "\<exists>u. URL_new E s = Inr u \<and> recognized_host (url_hostname u) \<and>
                 path_matches (url_pathname u) t i"
      using u by blast
  next
    assume "\<exists>u. URL_new E s = Inr u \<and> recognized_host (url_hostname u) \<and>
                 path_matches (url_pathname u) t i"
    then obtain u where u: "URL_new E s = Inr u" and h: "recognized_host (url_hostname u)"
      and pm: "path_matches (url_pathname u) t i" by blast
    from assms u have wf: "url_pathname u = [] \<or> hd (url_pathname u) = CHR ''/''" by blast
    from pm have pc: "at_index (split (CHR ''/'') (url_pathname u)) 1 = Some (type_name t) \<and>
          at_index (split (CHR ''/'') (url_pathname u)) 2 = Some i \<and> i \<noteq> []"
      unfolding pieces_match [OF wf] .
    from h have "js_includes (url_hostname u) ''spotify.com''"
      unfolding recognized_host_def js_includes_iff .
    with u pc show "parseSpotifyUrl (URL_new E) s = Inr (t, i)"
      unfolding parse_ok_iff by blast
  qed
  show "(\<forall>t' i'. parseSpotifyUrl (URL_new E) s \<noteq> Inr (t', i')) \<longrightarrow>
            (\<exists>e. parseSpotifyUrl (URL_new E) s = Inl e \<and>
                 handler E s customPath w =
                   Some (None, w\<lparr>console := console w @ [ConsoleError (''Error: '' @ message e)]\<rparr>))"
  proof
    assume "\<forall>t' i'. parseSpotifyUrl (URL_new E) s \<noteq> Inr (t', i')"
    then obtain e where "parseSpotifyUrl (URL_new E) s = Inl e"
      by (cases "parseSpotifyUrl (URL_new E) s") auto
    with handler_parse_error show "\<exists>e. parseSpotifyUrl (URL_new E) s = Inl e \<and>
                 handler E s customPath w =
                   Some (None, w\<lparr>console := console w @ [ConsoleError (''Error: '' @ message e)]\<rparr>)"
      by blast
  qed
qed


lemma ex_URL_wf: "\<forall>u. URL_new ex_env s = Inr u \<longrightarrow> url_pathname u = [] \<or> hd (url_pathname u) = CHR ''/''"
  by (auto simp: ex_env_def ex_URL_def split: if_splits)

theorem parseSpotifyUrl_succeeds_iff_witness:
  "parseSpotifyUrl (URL_new ex_env) ''https://open.spotify.com/album/6kxY4y?si=uhqo'' =
     Inr (Album, ''6kxY4y'') \<and>
   parseSpotifyUrl (URL_new ex_env) ''https://open.spotify.com/playlist/37i9/extra'' =
     Inr (Playlist, ''37i9'') \<and>
   handler ex_env ''https://example.com/album/6kxY4y'' ''/home/me/Downloads'' ex_world =
     Some (None, ex_world\<lparr>console :=
       [ConsoleError ''Error: Invalid domain. Only Spotify URLs are supported.'']\<rparr>)"
proof -
  let ?a = "''https://open.spotify.com/album/6kxY4y?si=uhqo''"
  let ?p = "''https://open.spotify.com/playlist/37i9/extra''"
  let ?x = "''https://example.com/album/6kxY4y''"
  have host: "recognized_host ''open.spotify.com''"
    unfolding recognized_host_def by (rule exI [of _ "''open.''"], rule exI [of _ "[]"]) simp
  have ua: "URL_new ex_env ?a =
      Inr \<lparr>url_hostname = ''open.spotify.com'', url_pathname = ''/album/6kxY4y''\<rparr>"
    by (simp add: ex_env_def ex_URL_def)
  have up: "URL_new ex_env ?p =
      Inr \<lparr>url_hostname = ''open.spotify.com'', url_pathname = ''/playlist/37i9/extra''\<rparr>"
    by (simp add: ex_env_def ex_URL_def)
  have ma: "path_matches ''/album/6kxY4y'' Album ''6kxY4y''"
    by (simp add: path_matches_def)
  have mp: "path_matches ''/playlist/37i9/extra'' Playlist ''37i9''"
    by (simp add: path_matches_def)
  have 1: "parseSpotifyUrl (URL_new ex_env) ?a = Inr (Album, ''6kxY4y'')"
    using parseSpotifyUrl_succeeds_iff [OF ex_URL_wf, of ?a Album "''6kxY4y''"] ua host ma
    by simp
  have 2: "parseSpotifyUrl (URL_new ex_env) ?p = Inr (Playlist, ''37i9'')"
    using parseSpotifyUrl_succeeds_iff [OF ex_URL_wf, of ?p Playlist "''37i9''"] up host mp
    by simp
  have fail: "parseSpotifyUrl (URL_new ex_env) ?x =
      Inl (Error ''Invalid domain. Only Spotify URLs are supported.'')"
    by (simp add: parseSpotifyUrl_def ex_env_def ex_URL_def)
  then have no: "\<forall>t' i'. parseSpotifyUrl (URL_new ex_env) ?x \<noteq> Inr (t', i')" by simp
  from parseSpotifyUrl_succeeds_iff [OF ex_URL_wf, of ?x Album "[]" "''/home/me/Downloads''" ex_world] no
  obtain e where e: "parseSpotifyUrl (URL_new ex_env) ?x = Inl e"
    and h: "handler ex_env ?x ''/home/me/Downloads'' ex_world =
       Some (None, ex_world\<lparr>console := console ex_world @ [ConsoleError (''Error: '' @ message e)]\<rparr>)"
    by blast
  from e fail have "e = Error ''Invalid domain. Only Spotify URLs are supported.''" by simp
  with h have 3: "handler ex_env ?x ''/home/me/Downloads'' ex_world =
     Some (None, ex_world\<lparr>console :=
       [ConsoleError ''Error: Invalid domain. Only Spotify URLs are supported.'']\<rparr>)"
    by (simp add: ex_world_def)
  from 1 2 3 show ?thesis by simp
qed

section \<open>Following the pages\<close>

lemma tracks_of_append: "tracks_of (xs @ ys) = tracks_of xs @ tracks_of ys"
  by (simp add: tracks_of_def)

lemma tracks_of_concat: "concat (map tracks_of xss) = tracks_of (concat xss)"
  by (induction xss) (simp_all add: tracks_of_append, simp add: tracks_of_def)

lemma follow_next_end:
  "\<not> truthy nxt \<Longrightarrow> follow_next E auth nxt acc w = Some (Inr acc, w)"
  by (subst follow_next.simps) simp

lemma follow_next_page:
  assumes "truthy nxt" and "api_get E (to_string nxt) auth = Inr d"
    and "getTracks (d_items d) = Inr ts"
  shows "follow_next E auth nxt acc w =
         follow_next E auth (d_next d) (acc @ ts) (w\<lparr>requests := requests w @ [to_string nxt]\<rparr>)"
  using assms by (subst follow_next.simps) simp

lemma follow_next_chain:
  assumes "page_chain E auth nxt pages"
    and "\<forall>its \<in> set pages. \<forall>it \<in> set its. flat_item it \<or> wrapped_item it"
  shows "\<exists>w'. follow_next E auth nxt acc w = Some (Inr (acc @ concat (map tracks_of pages)), w')"
  using assms
proof (induction pages arbitrary: nxt acc w)
  case Nil
  then show ?case by (simp add: follow_next_end)
next
  case (Cons its rest)
  from Cons.prems(1) obtain d where t: "truthy nxt"
    and g: "api_get E (to_string nxt) auth = Inr d"
    and i: "d_items d = Some its" and c: "page_chain E auth (d_next d) rest"
    by (auto split: sum.splits)
  from Cons.prems(2) have sh: "\<forall>it \<in> set its. flat_item it \<or> wrapped_item it"
    and shr: "\<forall>its \<in> set rest. \<forall>it \<in> set its. flat_item it \<or> wrapped_item it"
    by simp_all
  have gt: "getTracks (d_items d) = Inr (tracks_of its)"
    unfolding i using sh by (rule getTracks_shaped)
  from Cons.IH [OF c shr, of "acc @ tracks_of its" "w\<lparr>requests := requests w @ [to_string nxt]\<rparr>"]
  show ?case
    unfolding follow_next_page [OF t g gt] by simp
qed

text \<open>
  C7. When the token is there, the first response lists the items \<open>its0\<close> and the
  server links the further pages \<open>pages\<close> one after the other, all items well shaped,
  the resolver returns, and the track list it returns is the tracks of the items of all
  pages, the first page first, then each following page in the order fetched, the
  items of a page in their order; its length is the sum of the pages' item counts.
\<close>

theorem getSpotifyResource_pages:
  assumes tok: "getSpotifyAccessToken E w = (Inr token, w1)"
    and first: "api_get E (resource_url type rid) (bearer token) = Inr data"
    and tr: "d_tracks data = Some pg" "pg_items pg = Some its0"
    and chain: "page_chain E (bearer token) (pg_next pg) pages"
    and shaped: "\<forall>its \<in> set (its0 # pages). \<forall>it \<in> set its. flat_item it \<or> wrapped_item it"
    and info: "case type of Album \<Rightarrow> d_artists data \<noteq> None | Playlist \<Rightarrow> d_owner data \<noteq> None"
  shows "\<exists>r w'. getSpotifyResource E type rid w = Some (Inr r, w') \<and>
           res_tracks r = tracks_of (concat (its0 # pages)) \<and>
           length (res_tracks r) = sum_list (map length (its0 # pages))"
proof -
  from shaped have sh0: "\<forall>it \<in> set its0. flat_item it \<or> wrapped_item it"
    and shr: "\<forall>its \<in> set pages. \<forall>it \<in> set its. flat_item it \<or> wrapped_item it"
    by simp_all
  have g0: "getTracks (pg_items pg) = Inr (tracks_of its0)"
    unfolding tr(2) using sh0 by (rule getTracks_shaped)
  let ?w2 = "w1\<lparr>requests := requests w1 @ [resource_url type rid]\<rparr>"
  from follow_next_chain [OF chain shr, of "tracks_of its0" ?w2]
  obtain w3 where f: "follow_next E (bearer token) (pg_next pg) (tracks_of its0) ?w2 =
      Some (Inr (tracks_of its0 @ concat (map tracks_of pages)), w3)"
    by blast
  have ts: "tracks_of its0 @ concat (map tracks_of pages) = tracks_of (concat (its0 # pages))"
    by (simp add: tracks_of_concat tracks_of_append)
  have len: "length (tracks_of (concat (its0 # pages))) = sum_list (map length (its0 # pages))"
    by (simp add: tracks_of_def length_concat)
  let ?ts = "tracks_of (concat (its0 # pages))"
  have body: "getSpotifyResource_try E type rid w =
      (case type of
         Album \<Rightarrow>
           (case getArtistFromArtists (d_artists data) of
              Inl e \<Rightarrow> Some (Inl e, w3)
            | Inr a \<Rightarrow>
                Some (Inr \<lparr>res_id = d_id data, res_tracks = ?ts,
                            res_info = AlbumInfo (d_name data) a\<rparr>, w3))
       | Playlist \<Rightarrow>
           (case d_owner data of
              None \<Rightarrow>
                Some (Inl (TypeError
                  ''Cannot read properties of undefined (reading 'display_name')''), w3)
            | Some owner \<Rightarrow>
                Some (Inr \<lparr>res_id = d_id data, res_tracks = ?ts,
                            res_info = PlaylistInfo (d_name data) owner\<rparr>, w3)))"
    unfolding getSpotifyResource_try_def
    by (simp add: tok first tr(1) g0 f ts Let_def del: concat.simps)
  have "\<exists>r. getSpotifyResource_try E type rid w = Some (Inr r, w3) \<and> res_tracks r = ?ts"
  proof (cases type)
    case Album
    with info obtain as where "d_artists data = Some as" by auto
    with Album show ?thesis
      unfolding body by (simp add: getArtistFromArtists_def del: concat.simps)
  next
    case Playlist
    with info obtain ow where "d_owner data = Some ow" by auto
    with Playlist show ?thesis
      unfolding body by (simp del: concat.simps)
  qed
  then obtain r where r: "getSpotifyResource_try E type rid w = Some (Inr r, w3)"
    and rt: "res_tracks r = ?ts" by blast
  have "getSpotifyResource E type rid w = Some (Inr r, w3)"
    unfolding getSpotifyResource_def r by simp
  with rt len show ?thesis by (simp del: concat.simps)
qed


theorem getSpotifyResource_pages_witness:
  "\<exists>r w'. getSpotifyResource ex_env Playlist ''37i9'' ex_world = Some (Inr r, w') \<and>
     res_tracks r =
       [\<lparr>track_id = Str ''t2'', track_name = Str ''Two'', track_artist = ''C''\<rparr>,
        \<lparr>track_id = Str ''t3'', track_name = Str ''Three'', track_artist = ''D, E''\<rparr>] \<and>
     length (res_tracks r) = 2"
proof -
  let ?data = "\<lparr>d_id = Str ''37i9'', d_name = Str ''Mix'', d_artists = None,
             d_owner = Some (Str ''me''),
             d_tracks = Some \<lparr>pg_items = Some [ex_wrapped], pg_next = Str ex_page2_url\<rparr>,
             d_items = None, d_next = Undefined\<rparr>"
  let ?pg = "\<lparr>pg_items = Some [ex_wrapped], pg_next = Str ex_page2_url\<rparr>"
  have tok: "getSpotifyAccessToken ex_env ex_world =
      (Inr (Str ''BQD1''), ex_world\<lparr>requests := [token_url], accessToken := Str ''BQD1''\<rparr>)"
    by (simp add: getSpotifyAccessToken_def ex_env_def ex_env_token_def ex_world_def Let_def)
  have first: "api_get ex_env (resource_url Playlist ''37i9'') (bearer (Str ''BQD1'')) = Inr ?data"
    by (simp add: ex_env_def ex_api_def resource_url_def bearer_def)
  have tr: "d_tracks ?data = Some ?pg" "pg_items ?pg = Some [ex_wrapped]" by simp_all
  have chain: "page_chain ex_env (bearer (Str ''BQD1'')) (pg_next ?pg) [[ex_wrapped2]]"
    by (simp add: ex_env_def ex_api_def bearer_def ex_page2_url_def)
  have w1: "wrapped_item ex_wrapped" by (simp add: wrapped_item_def ex_wrapped_def)
  have w2: "wrapped_item ex_wrapped2" by (simp add: wrapped_item_def ex_wrapped2_def)
  have shaped: "\<forall>its \<in> set ([ex_wrapped] # [[ex_wrapped2]]). \<forall>it \<in> set its. flat_item it \<or> wrapped_item it"
    using w1 w2 by simp
  have info: "case Playlist of Album \<Rightarrow> d_artists ?data \<noteq> None | Playlist \<Rightarrow> d_owner ?data \<noteq> None"
    by simp
  have t: "tracks_of (concat ([ex_wrapped] # [[ex_wrapped2]])) =
       [\<lparr>track_id = Str ''t2'', track_name = Str ''Two'', track_artist = ''C''\<rparr>,
        \<lparr>track_id = Str ''t3'', track_name = Str ''Three'', track_artist = ''D, E''\<rparr>]"
    by (simp add: tracks_of_def getTrack_wrapped [OF w1] getTrack_wrapped [OF w2])
       (simp add: ex_wrapped_def ex_wrapped2_def)
  from getSpotifyResource_pages [OF tok first tr chain shaped info]
  obtain r w' where "getSpotifyResource ex_env Playlist ''37i9'' ex_world = Some (Inr r, w')"
    and "res_tracks r = tracks_of (concat ([ex_wrapped] # [[ex_wrapped2]]))"
    and "length (res_tracks r) = sum_list (map length ([ex_wrapped] # [[ex_wrapped2]]))"
    by blast
  then show ?thesis unfolding t by auto
qed

section \<open>A tagger that fails\<close>



section \<open>A resource without tracks\<close>

lemma summaries_ConsoleLog [simp]: "summaries (ConsoleLog l # ls) = summaries ls"
  by (simp add: summaries_def)








end
